theory Spec2Isabelle
  imports Complex_Main
begin

section \<open>Shared type definitions (types.ts)\<close>

text \<open>
  A TypeScript \<open>number\<close> that carries a score, a threshold or an intensity is modelled as a
  \<^typ>\<open>real\<close>: comparisons and the clamp \<open>Math.max(0, Math.min(1, x))\<close> then read as in the
  source. Not-a-number and rounding are outside this model. Array lengths, array indices and
  pixel counts are natural numbers; an optional field (\<open>x?: T\<close>, \<open>T | null\<close>) is an
  \<^typ>\<open>'a option\<close>.
\<close>

datatype PatchStrategy = Full_regen | Surgical_patch

datatype StopReason = Success | Max_iterations | Timeout | Converged | Error

datatype IterationCategory =
  C_first | C_improved | C_stalled | C_regressed | C_converged | C_achieved

record IterationRecord =
  iteration :: int
  score :: real
  strategy :: PatchStrategy
  filesModified :: "string list"
  elapsedMs :: real
  category :: IterationCategory
  timestamp :: real

text \<open>
  The \<open>reason\<close> of a recommendation is a template string in the source; the model keeps the
  template and the numbers that fill it.
\<close>

datatype Reason =
  Target_threshold_reached
| Maximum_iterations_reached
| Score_converged
| Score_regressed real real int
| Score_below_patch_threshold real real
| Score_above_patch_threshold real

record StrategyRecommendation =
  strategy :: PatchStrategy
  reason :: Reason
  shouldStop :: bool
  stopReason :: "StopReason option"
  shouldRollback :: bool
  rollbackTo :: "int option"

text \<open>The part of the configuration (config/schema.ts) that the analyzer reads.\<close>

record ComparisonConfig =
  threshold :: real
  maxIterations :: int
  improvementThreshold :: real
  patchSwitchThreshold :: real

record ImugiConfig =
  comparison :: ComparisonConfig


section \<open>Iteration categories and the per-round decision (core/analyzer.ts)\<close>

definition categorizeIteration ::
  "real \<Rightarrow> real option \<Rightarrow> real \<Rightarrow> real \<Rightarrow> IterationCategory" where
  "categorizeIteration currentScore previousScore thr impThr =
     (case previousScore of
        None \<Rightarrow> C_first
      | Some prev \<Rightarrow>
          if currentScore \<ge> thr then C_achieved
          else if currentScore - prev > impThr then C_improved
          else if currentScore < prev then C_regressed
          else if \<bar>currentScore - prev\<bar> \<le> impThr then C_stalled
          else C_stalled)"

text \<open>
  The precedence rule as the specification words it: the first matching category in the order
  achieved, improved, regressed, stalled; \<open>None\<close> when no rule matches.
\<close>

definition categorize_spec ::
  "real \<Rightarrow> real option \<Rightarrow> real \<Rightarrow> real \<Rightarrow> IterationCategory option" where
  "categorize_spec currentScore previousScore thr impThr =
     (case previousScore of
        None \<Rightarrow> Some C_first
      | Some prev \<Rightarrow>
          if currentScore \<ge> thr then Some C_achieved
          else if currentScore - prev > impThr then Some C_improved
          else if currentScore < prev then Some C_regressed
          else if \<bar>currentScore - prev\<bar> \<le> impThr then Some C_stalled
          else None)"

text \<open>\<open>history.slice(-3)\<close>: the last three entries, or the whole list when it is shorter.\<close>

definition slice_last3 :: "'a list \<Rightarrow> 'a list" where
  "slice_last3 xs = drop (length xs - 3) xs"

text \<open>
  \<open>history.reduce((best, r) => (r.score > best.score ? r : best), history[0])\<close>; it is only
  called on a non-empty history.
\<close>

definition bestIteration :: "IterationRecord list \<Rightarrow> IterationRecord" where
  "bestIteration history =
     foldl (\<lambda>best r. if score r > score best then r else best) (hd history) history"

definition alternateStrategy :: "PatchStrategy \<Rightarrow> PatchStrategy" where
  "alternateStrategy s = (if s = Full_regen then Surgical_patch else Full_regen)"

definition suggestStrategy ::
  "real \<Rightarrow> IterationRecord list \<Rightarrow> ImugiConfig \<Rightarrow> StrategyRecommendation" where
  "suggestStrategy currentScore history config =
     (if currentScore \<ge> threshold (comparison config) then
        \<lparr> StrategyRecommendation.strategy = Surgical_patch,
          reason = Target_threshold_reached,
          shouldStop = True, stopReason = Some Success,
          shouldRollback = False, rollbackTo = None \<rparr>
      else if int (length history) \<ge> maxIterations (comparison config) then
        \<lparr> StrategyRecommendation.strategy = Surgical_patch,
          reason = Maximum_iterations_reached,
          shouldStop = True, stopReason = Some Max_iterations,
          shouldRollback = False, rollbackTo = None \<rparr>
      else if length (slice_last3 history) \<ge> 3
              \<and> list_all (\<lambda>r. category r = C_stalled) (slice_last3 history) then
        \<lparr> StrategyRecommendation.strategy = Surgical_patch,
          reason = Score_converged,
          shouldStop = True, stopReason = Some Converged,
          shouldRollback = False, rollbackTo = None \<rparr>
      else if length history > 0 \<and> score (last history) > currentScore then
        \<lparr> StrategyRecommendation.strategy =
            alternateStrategy (IterationRecord.strategy (last history)),
          reason = Score_regressed (score (last history)) currentScore
                     (iteration (bestIteration history)),
          shouldStop = False, stopReason = None,
          shouldRollback = True,
          rollbackTo = Some (iteration (bestIteration history)) \<rparr>
      else if currentScore < patchSwitchThreshold (comparison config) then
        \<lparr> StrategyRecommendation.strategy = Full_regen,
          reason = Score_below_patch_threshold currentScore
                     (patchSwitchThreshold (comparison config)),
          shouldStop = False, stopReason = None,
          shouldRollback = False, rollbackTo = None \<rparr>
      else
        \<lparr> StrategyRecommendation.strategy = Surgical_patch,
          reason = Score_above_patch_threshold currentScore,
          shouldStop = False, stopReason = None,
          shouldRollback = False, rollbackTo = None \<rparr>)"

text \<open>
  The three stop conditions of the decision, in the words of the specification. The third one
  asks for three history entries to exist.
\<close>

definition last3_stalled :: "IterationRecord list \<Rightarrow> bool" where
  "last3_stalled history =
     (3 \<le> length history \<and>
      category (history ! (length history - 1)) = C_stalled \<and>
      category (history ! (length history - 2)) = C_stalled \<and>
      category (history ! (length history - 3)) = C_stalled)"

definition no_stop_condition :: "real \<Rightarrow> IterationRecord list \<Rightarrow> ImugiConfig \<Rightarrow> bool" where
  "no_stop_condition currentScore history config =
     (currentScore < threshold (comparison config) \<and>
      int (length history) < maxIterations (comparison config) \<and>
      \<not> last3_stalled history)"

text \<open>
  The best-scoring entry of a history with ties broken by first occurrence: the entry at the
  least position whose score no other entry exceeds.
\<close>

definition first_best :: "IterationRecord list \<Rightarrow> IterationRecord \<Rightarrow> bool" where
  "first_best history b =
     (\<exists>i < length history. b = history ! i \<and>
        (\<forall>j < length history. score (history ! j) \<le> score (history ! i)) \<and>
        (\<forall>j < i. score (history ! j) < score (history ! i)))"

text \<open>
  The flip of a strategy as the specification words it: \<open>full_regen\<close> and
  \<open>surgical_patch\<close> exchanged.
\<close>

definition flip_strategy :: "PatchStrategy \<Rightarrow> PatchStrategy" where
  "flip_strategy s = (case s of Full_regen \<Rightarrow> Surgical_patch | Surgical_patch \<Rightarrow> Full_regen)"

text \<open>The configuration used by the repository's tests, which is the schema's default.\<close>

definition mockConfig :: ImugiConfig where
  "mockConfig = \<lparr> comparison = \<lparr> threshold = 0.95, maxIterations = 10,
                                   improvementThreshold = 0.01,
                                   patchSwitchThreshold = 0.7 \<rparr> \<rparr>"

text \<open>A history entry as the tests write it, with no files and fixed times.\<close>

definition mkRecord :: "int \<Rightarrow> real \<Rightarrow> PatchStrategy \<Rightarrow> IterationCategory \<Rightarrow> IterationRecord" where
  "mkRecord i s st c =
     \<lparr> iteration = i, score = s, IterationRecord.strategy = st, filesModified = [],
       elapsedMs = 1000, category = c, timestamp = 0 \<rparr>"



section \<open>Comparison results and the difference report (types.ts, core/analyzer.ts)\<close>

record DiffRegion =
  x :: real
  y :: real
  width :: real
  height :: real
  diffIntensity :: real
  pixelCount :: real

record SSIMResult =
  mssim :: real
  performanceMs :: real

text \<open>
  An image buffer is modelled by what the image library decodes from it: its dimensions and
  its raw bytes (for a diff image, four channels per pixel, row by row).
\<close>

record RawImage =
  width :: nat
  height :: nat
  rawData :: "nat list"

record PixelDiffResult =
  diffCount :: real
  totalPixels :: real
  diffPercentage :: real
  diffImageBuffer :: RawImage

record ComparisonResult =
  ssim :: SSIMResult
  pixelDiff :: PixelDiffResult
  diffRegions :: "DiffRegion list"
  compositeScore :: real

record VisionDifference =
  area :: string
  type :: string
  description :: string
  cssSuggestion :: string

record VisionAnalysis =
  similarityScore :: real
  differences :: "VisionDifference list"
  overallAssessment :: string

datatype Classification =
  Color | Spacing | Size | Position | Missing | Extra | Font | Unknown

text \<open>
  What the field \<open>classification\<close> holds at run time: one of the eight classifications, or,
  for a label that names a member of \<open>Object.prototype\<close>, that inherited member, which is
  not a classification.
\<close>

datatype ClassValue = Class Classification | Inherited string

datatype Priority = High | Medium | Low

text \<open>
  The description of a region is the text of its vision difference when there is one, and
  else the template \<open>Difference in region at (x, y)\<close>, kept with the two numbers that
  fill it.
\<close>

datatype Description = Described string | Difference_in_region_at real real

text \<open>The priority of an analyzed region is \<open>None\<close> when it is \<open>undefined\<close>.\<close>

record AnalyzedRegion =
  region :: DiffRegion
  classification :: ClassValue
  priority :: "Priority option"
  description :: Description
  cssSuggestion :: "string option"

text \<open>
  The summary is \<open>No significant differences found.\<close> for an empty report, and else the
  sentence built from the number of regions and the numbers of high, medium and low ones.
\<close>

datatype Summary = No_significant_differences | Found nat nat nat nat

record DiffReport =
  overallScore :: real
  regionCount :: nat
  regions :: "AnalyzedRegion list"
  summary :: Summary
  suggestedStrategy :: PatchStrategy

text \<open>
  The lookup table of \<open>classifyRegion\<close> is a plain object literal with seven keys of its
  own. Indexing it with a label finds an own key first, and else a member that every plain
  object inherits from \<open>Object.prototype\<close>; only a label that is neither gives
  \<open>undefined\<close>, for which \<open>?? 'unknown'\<close> applies.
\<close>

definition typeMapEntries :: "(string \<times> Classification) list" where
  "typeMapEntries =
     [(''color'', Color), (''spacing'', Spacing), (''size'', Size),
      (''position'', Position), (''missing'', Missing), (''extra'', Extra),
      (''font'', Font)]"

text \<open>The names of the members of \<open>Object.prototype\<close> in the language standard.\<close>

definition objectPrototypeKeys :: "string list" where
  "objectPrototypeKeys =
     [''constructor'', ''hasOwnProperty'', ''isPrototypeOf'', ''propertyIsEnumerable'',
      ''toLocaleString'', ''toString'', ''valueOf'', ''__proto__'',
      ''__defineGetter__'', ''__defineSetter__'', ''__lookupGetter__'', ''__lookupSetter__'']"

definition typeMap :: "string \<Rightarrow> ClassValue option" where
  "typeMap key =
     (case map_of typeMapEntries key of
        Some c \<Rightarrow> Some (Class c)
      | None \<Rightarrow> if key \<in> set objectPrototypeKeys then Some (Inherited key) else None)"

definition classifyRegion :: "DiffRegion \<Rightarrow> VisionDifference option \<Rightarrow> ClassValue" where
  "classifyRegion r visionDiff =
     (case visionDiff of
        Some vd \<Rightarrow> (case typeMap (type vd) of Some v \<Rightarrow> v | None \<Rightarrow> Class Unknown)
      | None \<Rightarrow>
          if DiffRegion.width r > 200 \<or> DiffRegion.height r > 200 then Class Position
          else if diffIntensity r > 0.5 then Class Color
          else Class Unknown)"

text \<open>
  The \<open>switch\<close> of \<open>assignPriority\<close> has a case for each classification and no default:
  for any other value the function returns \<open>undefined\<close>.
\<close>

fun assignPriority :: "ClassValue \<Rightarrow> Priority option" where
  "assignPriority (Class Missing) = Some High"
| "assignPriority (Class Extra) = Some High"
| "assignPriority (Class Position) = Some High"
| "assignPriority (Class Size) = Some Medium"
| "assignPriority (Class Spacing) = Some Medium"
| "assignPriority (Class Color) = Some Low"
| "assignPriority (Class Font) = Some Low"
| "assignPriority (Class Unknown) = Some Low"
| "assignPriority (Inherited k) = None"

text \<open>
  \<open>priorityOrder[p]\<close> for the table \<open>{ high: 0, medium: 1, low: 2 }\<close>: a number, or
  \<open>undefined\<close> for the priority \<open>undefined\<close>.
\<close>

fun priorityOrder :: "Priority option \<Rightarrow> real option" where
  "priorityOrder (Some High) = Some 0"
| "priorityOrder (Some Medium) = Some 1"
| "priorityOrder (Some Low) = Some 2"
| "priorityOrder None = None"

text \<open>
  The comparator \<open>(a, b) => priorityOrder[a.priority] - priorityOrder[b.priority]\<close>. A
  difference with \<open>undefined\<close> is not a number, which is \<open>None\<close> here.
\<close>

definition comparePriority :: "AnalyzedRegion \<Rightarrow> AnalyzedRegion \<Rightarrow> real option" where
  "comparePriority a b =
     (case priorityOrder (priority a) of
        None \<Rightarrow> None
      | Some m \<Rightarrow> (case priorityOrder (priority b) of None \<Rightarrow> None | Some n \<Rightarrow> Some (m - n)))"

text \<open>
  \<open>Array.prototype.sort\<close> with a comparator. The language takes a comparator result that is
  not a number as 0, and sorts stably. For a comparator that orders the elements
  consistently this fixes the result; for any other comparator the language leaves the order
  to the implementation. The model sorts by stable insertion, as \<^const>\<open>sort_key\<close> does.
\<close>

definition sortCompare :: "('a \<Rightarrow> 'a \<Rightarrow> real option) \<Rightarrow> 'a \<Rightarrow> 'a \<Rightarrow> real" where
  "sortCompare comparefn a b = (case comparefn a b of None \<Rightarrow> 0 | Some v \<Rightarrow> v)"

fun insertSorted :: "('a \<Rightarrow> 'a \<Rightarrow> real option) \<Rightarrow> 'a \<Rightarrow> 'a list \<Rightarrow> 'a list" where
  "insertSorted comparefn a [] = [a]"
| "insertSorted comparefn a (b # bs) =
     (if sortCompare comparefn a b \<le> 0 then a # b # bs
      else b # insertSorted comparefn a bs)"

definition arraySort :: "('a \<Rightarrow> 'a \<Rightarrow> real option) \<Rightarrow> 'a list \<Rightarrow> 'a list" where
  "arraySort comparefn xs = foldr (insertSorted comparefn) xs []"

text \<open>
  The fallback heuristics and the priority table as the specification words them.
\<close>

definition heuristic_class :: "DiffRegion \<Rightarrow> Classification" where
  "heuristic_class r =
     (if DiffRegion.width r > 200 \<or> DiffRegion.height r > 200 then Position
      else if diffIntensity r > 0.5 then Color else Unknown)"

definition priority_of_class :: "Classification \<Rightarrow> Priority" where
  "priority_of_class c =
     (if c \<in> {Missing, Extra, Position} then High
      else if c \<in> {Size, Spacing} then Medium
      else Low)"

text \<open>\<open>visionAnalysis?.differences[i]\<close>: absent without an analysis or beyond its list.\<close>

definition visionDiffAt :: "VisionAnalysis option \<Rightarrow> nat \<Rightarrow> VisionDifference option" where
  "visionDiffAt visionAnalysis i =
     (case visionAnalysis of
        None \<Rightarrow> None
      | Some va \<Rightarrow> if i < length (differences va) then Some (differences va ! i) else None)"

definition analyzeRegion :: "VisionAnalysis option \<Rightarrow> DiffRegion \<times> nat \<Rightarrow> AnalyzedRegion" where
  "analyzeRegion visionAnalysis ri =
     (let r = fst ri;
          visionDiff = visionDiffAt visionAnalysis (snd ri);
          cl = classifyRegion r visionDiff
      in \<lparr> region = r,
           classification = cl,
           priority = assignPriority cl,
           AnalyzedRegion.description =
             (case visionDiff of
                Some vd \<Rightarrow> Described (VisionDifference.description vd)
              | None \<Rightarrow> Difference_in_region_at (x r) (y r)),
           AnalyzedRegion.cssSuggestion =
             (case visionDiff of
                Some vd \<Rightarrow> Some (VisionDifference.cssSuggestion vd)
              | None \<Rightarrow> None) \<rparr>)"

text \<open>
  \<open>comparison.diffRegions.map((region, i) => ...)\<close>, before the sort.
\<close>

definition mappedRegions :: "ComparisonResult \<Rightarrow> VisionAnalysis option \<Rightarrow> AnalyzedRegion list" where
  "mappedRegions cmp visionAnalysis =
     map (analyzeRegion visionAnalysis)
       (zip (diffRegions cmp) [0..<length (diffRegions cmp)])"

definition analyzeDifferences :: "ComparisonResult \<Rightarrow> VisionAnalysis option \<Rightarrow> DiffReport" where
  "analyzeDifferences cmp visionAnalysis =
     (let rs = arraySort comparePriority (mappedRegions cmp visionAnalysis);
          sc = (case visionAnalysis of
                  Some va \<Rightarrow> similarityScore va
                | None \<Rightarrow> compositeScore cmp)
      in \<lparr> overallScore = sc,
           regionCount = length rs,
           regions = rs,
           summary =
             (if length rs = 0 then No_significant_differences
              else Found (length rs)
                     (length (filter (\<lambda>r. priority r = Some High) rs))
                     (length (filter (\<lambda>r. priority r = Some Medium) rs))
                     (length (filter (\<lambda>r. priority r = Some Low) rs))),
           suggestedStrategy = (if sc < 0.7 then Full_regen else Surgical_patch) \<rparr>)"

text \<open>The number that the comparator reads for a region whose priority is defined.\<close>

definition priorityRank :: "AnalyzedRegion \<Rightarrow> real" where
  "priorityRank r = (case priorityOrder (priority r) of Some n \<Rightarrow> n | None \<Rightarrow> 0)"

text \<open>
  A vision analysis all of whose labels are looked up without reaching
  \<open>Object.prototype\<close>.
\<close>

definition own_labels :: "VisionAnalysis option \<Rightarrow> bool" where
  "own_labels visionAnalysis =
     (case visionAnalysis of
        None \<Rightarrow> True
      | Some va \<Rightarrow> list_all (\<lambda>d. type d \<notin> set objectPrototypeKeys) (differences va))"

text \<open>The comparison result of the analyzer's tests.\<close>

definition mockComparisonResult :: ComparisonResult where
  "mockComparisonResult =
     \<lparr> ssim = \<lparr> mssim = 0.85, performanceMs = 100 \<rparr>,
       pixelDiff = \<lparr> diffCount = 500, totalPixels = 10000, diffPercentage = 0.05,
                     diffImageBuffer = \<lparr> RawImage.width = 0, RawImage.height = 0, rawData = [] \<rparr> \<rparr>,
       diffRegions =
         [\<lparr> x = 0, y = 0, DiffRegion.width = 100, DiffRegion.height = 100,
            diffIntensity = 0.3, pixelCount = 300 \<rparr>,
          \<lparr> x = 200, y = 200, DiffRegion.width = 300, DiffRegion.height = 300,
            diffIntensity = 0.7, pixelCount = 1000 \<rparr>],
       compositeScore = 0.85 \<rparr>"

text \<open>
  Three regions and a vision analysis that labels them \<open>color\<close>, \<open>toString\<close> and
  \<open>missing\<close>.
\<close>

definition threeRegions :: ComparisonResult where
  "threeRegions =
     mockComparisonResult
       \<lparr> diffRegions :=
           [\<lparr> x = 0, y = 0, DiffRegion.width = 100, DiffRegion.height = 100,
              diffIntensity = 0.3, pixelCount = 300 \<rparr>,
            \<lparr> x = 200, y = 200, DiffRegion.width = 300, DiffRegion.height = 300,
              diffIntensity = 0.7, pixelCount = 1000 \<rparr>,
            \<lparr> x = 600, y = 0, DiffRegion.width = 50, DiffRegion.height = 50,
              diffIntensity = 0.2, pixelCount = 500 \<rparr>] \<rparr>"

definition labelled :: "string \<Rightarrow> VisionDifference" where
  "labelled l = \<lparr> area = ''header'', type = l, VisionDifference.description = ''differs'',
                  VisionDifference.cssSuggestion = ''none'' \<rparr>"

definition inheritedLabelAnalysis :: VisionAnalysis where
  "inheritedLabelAnalysis =
     \<lparr> similarityScore = 0.8,
       differences = [labelled ''color'', labelled ''toString'', labelled ''missing''],
       overallAssessment = ''close'' \<rparr>"


section \<open>The composite score (core/comparator.ts)\<close>

record Scores =
  ssim :: real
  layout :: "real option"
  vision :: "real option"

text \<open>\<open>Math.max(0, Math.min(1, v))\<close>.\<close>

definition clamp01 :: "real \<Rightarrow> real" where
  "clamp01 v = max 0 (min 1 v)"

text \<open>The clamp to the unit interval as the specification means it.\<close>

definition clamp_unit :: "real \<Rightarrow> real" where
  "clamp_unit v = (if v < 0 then 0 else if v > 1 then 1 else v)"

definition computeCompositeScore :: "Scores \<Rightarrow> real" where
  "computeCompositeScore scores =
     (if vision scores \<noteq> None \<and> layout scores \<noteq> None then
        clamp01 (Scores.ssim scores * 0.3 + the (layout scores) * 0.3 + the (vision scores) * 0.4)
      else if vision scores \<noteq> None then
        clamp01 (Scores.ssim scores * 0.4 + the (vision scores) * 0.6)
      else if layout scores \<noteq> None then
        clamp01 (Scores.ssim scores * 0.5 + the (layout scores) * 0.5)
      else clamp01 (Scores.ssim scores))"


section \<open>The structural similarity score (core/comparator.ts)\<close>

text \<open>
  \<open>computeSSIM\<close> is modelled from the point where the two images have been aligned to a
  common width and height and turned into raw grayscale bytes, one byte per pixel, row by
  row. The elapsed time it reports is a parameter of the model.
\<close>

definition windowSize :: nat where
  "windowSize = 8"

definition c1 :: real where
  "c1 = (0.01 * 255)\<^sup>2"

definition c2 :: real where
  "c2 = (0.03 * 255)\<^sup>2"

record WindowSums =
  sumA :: real
  sumB :: real
  sumAA :: real
  sumBB :: real
  sumAB :: real

text \<open>The body of the two inner loops, at the offsets \<open>wy\<close> and \<open>wx\<close> in the window.\<close>

definition addPixel ::
  "nat list \<Rightarrow> nat list \<Rightarrow> nat \<Rightarrow> nat \<Rightarrow> nat \<Rightarrow> WindowSums \<Rightarrow> nat \<times> nat \<Rightarrow> WindowSums" where
  "addPixel designGray screenshotGray w x0 y0 s off =
     (let idx = (y0 + fst off) * w + (x0 + snd off);
          a = real (designGray ! idx);
          b = real (screenshotGray ! idx)
      in \<lparr> sumA = sumA s + a, sumB = sumB s + b, sumAA = sumAA s + a * a,
           sumBB = sumBB s + b * b, sumAB = sumAB s + a * b \<rparr>)"

definition windowSums :: "nat list \<Rightarrow> nat list \<Rightarrow> nat \<Rightarrow> nat \<Rightarrow> nat \<Rightarrow> WindowSums" where
  "windowSums designGray screenshotGray w x0 y0 =
     foldl (addPixel designGray screenshotGray w x0 y0)
       \<lparr> sumA = 0, sumB = 0, sumAA = 0, sumBB = 0, sumAB = 0 \<rparr>
       (List.product [0..<windowSize] [0..<windowSize])"

text \<open>The value that one window adds to \<open>totalSSIM\<close>.\<close>

definition windowSSIM :: "nat list \<Rightarrow> nat list \<Rightarrow> nat \<Rightarrow> nat \<Rightarrow> nat \<Rightarrow> real" where
  "windowSSIM designGray screenshotGray w x0 y0 =
     (let s = windowSums designGray screenshotGray w x0 y0;
          n = real (windowSize * windowSize);
          meanA = sumA s / n;
          meanB = sumB s / n;
          varA = sumAA s / n - meanA * meanA;
          varB = sumBB s / n - meanB * meanB;
          covAB = sumAB s / n - meanA * meanB;
          numerator = (2 * meanA * meanB + c1) * (2 * covAB + c2);
          denominator = (meanA * meanA + meanB * meanB + c1) * (varA + varB + c2)
      in numerator / denominator)"

text \<open>
  The loop \<open>for (x = 0; x <= width - windowSize; x += windowSize)\<close> from the position
  \<open>x0\<close> on, with the running \<open>totalSSIM\<close> and \<open>windowCount\<close>. The bound is an integer
  comparison: \<open>width - windowSize\<close> is negative for a narrow image.
\<close>

function ssimRow ::
  "nat list \<Rightarrow> nat list \<Rightarrow> nat \<Rightarrow> nat \<Rightarrow> nat \<Rightarrow> real \<times> nat \<Rightarrow> real \<times> nat" where
  "ssimRow designGray screenshotGray w y0 x0 acc =
     (if int x0 \<le> int w - int windowSize then
        ssimRow designGray screenshotGray w y0 (x0 + windowSize)
          (fst acc + windowSSIM designGray screenshotGray w x0 y0, snd acc + 1)
      else acc)"
  by pat_completeness auto
termination
  by (relation "measure (\<lambda>(designGray, screenshotGray, w, y0, x0, acc). w - x0)")
    (auto simp: windowSize_def)

declare ssimRow.simps [simp del]

text \<open>The loop \<open>for (y = 0; y <= height - windowSize; y += windowSize)\<close> around it.\<close>

function ssimRows ::
  "nat list \<Rightarrow> nat list \<Rightarrow> nat \<Rightarrow> nat \<Rightarrow> nat \<Rightarrow> real \<times> nat \<Rightarrow> real \<times> nat" where
  "ssimRows designGray screenshotGray w h y0 acc =
     (if int y0 \<le> int h - int windowSize then
        ssimRows designGray screenshotGray w h (y0 + windowSize)
          (ssimRow designGray screenshotGray w y0 0 acc)
      else acc)"
  by pat_completeness auto
termination
  by (relation "measure (\<lambda>(designGray, screenshotGray, w, h, y0, acc). h - y0)")
    (auto simp: windowSize_def)

declare ssimRows.simps [simp del]

definition computeSSIM :: "nat list \<Rightarrow> nat list \<Rightarrow> nat \<Rightarrow> nat \<Rightarrow> real \<Rightarrow> SSIMResult" where
  "computeSSIM designGray screenshotGray w h elapsed =
     (let acc = ssimRows designGray screenshotGray w h 0 (0, 0);
          totalSSIM = fst acc;
          windowCount = snd acc;
          m = (if windowCount > 0 then totalSSIM / real windowCount else 1)
      in \<lparr> mssim = max 0 (min 1 m), performanceMs = elapsed \<rparr>)"

text \<open>The byte that \<open>addPixel\<close> reads from an image at an offset in a window.\<close>

definition grayAt :: "nat list \<Rightarrow> nat \<Rightarrow> nat \<Rightarrow> nat \<Rightarrow> nat \<times> nat \<Rightarrow> real" where
  "grayAt g w x0 y0 off = real (g ! ((y0 + fst off) * w + (x0 + snd off)))"

text \<open>
  The windows as the specification describes them: non-overlapping windows of 8 by 8 pixels,
  stepped by 8 from the origin, a partial trailing window dropped. They are listed row by
  row by the position of their top left corner.
\<close>

definition window_origins :: "nat \<Rightarrow> nat list" where
  "window_origins n = map (\<lambda>k. 8 * k) [0..<n div 8]"

definition complete_windows :: "nat \<Rightarrow> nat \<Rightarrow> (nat \<times> nat) list" where
  "complete_windows w h =
     concat (map (\<lambda>y0. map (\<lambda>x0. (x0, y0)) (window_origins w)) (window_origins h))"

definition mean_window_ssim :: "nat list \<Rightarrow> nat list \<Rightarrow> nat \<Rightarrow> nat \<Rightarrow> real" where
  "mean_window_ssim designGray screenshotGray w h =
     (if complete_windows w h = [] then 1
      else sum_list (map (\<lambda>p. windowSSIM designGray screenshotGray w (fst p) (snd p))
                      (complete_windows w h))
           / real (length (complete_windows w h)))"


section \<open>The region extractor (core/comparator.ts)\<close>

text \<open>
  \<open>findDiffRegions\<close> is modelled from the decoded diff image: its width, its height and its
  raw bytes with four channels per pixel.
\<close>

definition gridSize :: nat where
  "gridSize = 32"

definition gridCols :: "RawImage \<Rightarrow> nat" where
  "gridCols img = nat \<lceil>real (RawImage.width img) / real gridSize\<rceil>"

definition gridRows :: "RawImage \<Rightarrow> nat" where
  "gridRows img = nat \<lceil>real (RawImage.height img) / real gridSize\<rceil>"

text \<open>
  The test \<open>rawData[idx] > 50\<close> on the first channel of the pixel in column \<open>px\<close> of row
  \<open>py\<close>. A read beyond the buffer yields \<open>undefined\<close>, for which the comparison is false.
\<close>

definition redAbove :: "RawImage \<Rightarrow> nat \<Rightarrow> nat \<Rightarrow> bool" where
  "redAbove img px py =
     (let idx = (py * RawImage.width img + px) * 4
      in idx < length (rawData img) \<and> rawData img ! idx > 50)"

text \<open>The grid cell of a pixel, \<open>gy * gridCols + gx\<close>.\<close>

definition cellOf :: "RawImage \<Rightarrow> nat \<Rightarrow> nat \<Rightarrow> nat" where
  "cellOf img px py = (py div gridSize) * gridCols img + px div gridSize"

text \<open>The body of the counting loops for the pixel in row \<open>fst p\<close> and column \<open>snd p\<close>.\<close>

definition countPixel :: "RawImage \<Rightarrow> nat list \<Rightarrow> nat \<times> nat \<Rightarrow> nat list" where
  "countPixel img grid p =
     (if redAbove img (snd p) (fst p)
      then grid[cellOf img (snd p) (fst p) := grid ! cellOf img (snd p) (fst p) + 1]
      else grid)"

definition buildGrid :: "RawImage \<Rightarrow> nat list" where
  "buildGrid img =
     foldl (countPixel img) (replicate (gridCols img * gridRows img) 0)
       (List.product [0..<RawImage.height img] [0..<RawImage.width img])"

text \<open>The state of one flood fill: the queue, the visited set and the running bounds.\<close>

record FillState =
  queue :: "nat list"
  visited :: "nat set"
  minX :: nat
  maxX :: nat
  minY :: nat
  maxY :: nat
  total :: nat

definition directions :: "(int \<times> int) list" where
  "directions = [(0, 1), (0, -1), (1, 0), (-1, 0)]"

text \<open>
  The body of the loop over the four directions, on the visited set and the queue. The
  neighbour's coordinates are integers, since they may leave the grid on the low side.
\<close>

definition visitNeighbour ::
  "nat list \<Rightarrow> nat \<Rightarrow> nat \<Rightarrow> nat \<Rightarrow> nat \<Rightarrow> nat set \<times> nat list \<Rightarrow> int \<times> int \<Rightarrow> nat set \<times> nat list" where
  "visitNeighbour grid cols rows cx cy vq d =
     (let nx = int cx + fst d; ny = int cy + snd d
      in if nx \<ge> 0 \<and> nx < int cols \<and> ny \<ge> 0 \<and> ny < int rows then
           (let ni = nat (ny * int cols + nx)
            in if ni < length grid \<and> grid ! ni > 0 \<and> ni \<notin> fst vq
               then (insert ni (fst vq), snd vq @ [ni])
               else vq)
         else vq)"

text \<open>One turn of \<open>while (queue.length > 0)\<close>, for a non-empty queue.\<close>

definition floodStep :: "nat list \<Rightarrow> nat \<Rightarrow> nat \<Rightarrow> FillState \<Rightarrow> FillState" where
  "floodStep grid cols rows s =
     (let cell = hd (queue s);
          cx = cell mod cols;
          cy = cell div cols;
          vq = foldl (visitNeighbour grid cols rows cx cy) (visited s, tl (queue s)) directions
      in \<lparr> queue = snd vq, visited = fst vq,
           minX = min (minX s) cx, maxX = max (maxX s) cx,
           minY = min (minY s) cy, maxY = max (maxY s) cy,
           total = total s + grid ! cell \<rparr>)"

text \<open>
  A turn of the loop takes one cell from the queue and, for every cell it adds, one cell
  from the unvisited ones, so the loop ends.
\<close>

definition fill_measure :: "nat list \<Rightarrow> nat set \<times> nat list \<Rightarrow> nat" where
  "fill_measure grid vq = 2 * card ({..<length grid} - fst vq) + length (snd vq)"

lemma visitNeighbour_measure:
  "fill_measure grid (visitNeighbour grid cols rows cx cy vq d) \<le> fill_measure grid vq"
proof -
  have "fill_measure grid (insert ni (fst vq), snd vq @ [ni]) \<le> fill_measure grid vq"
    if "ni < length grid" "ni \<notin> fst vq" for ni
  proof -
    have "ni \<in> {..<length grid} - fst vq" using that by simp
    then have "card ({..<length grid} - fst vq - {ni}) < card ({..<length grid} - fst vq)"
      by (intro card_Diff1_less) simp_all
    moreover have "{..<length grid} - insert ni (fst vq) = {..<length grid} - fst vq - {ni}"
      by auto
    ultimately show ?thesis unfolding fill_measure_def by simp
  qed
  then show ?thesis
    unfolding visitNeighbour_def Let_def by simp
qed

lemma visitNeighbours_measure:
  "fill_measure grid (foldl (visitNeighbour grid cols rows cx cy) vq ds) \<le> fill_measure grid vq"
proof (induction ds arbitrary: vq)
  case Nil
  then show ?case by simp
next
  case (Cons d ds)
  have "fill_measure grid (foldl (visitNeighbour grid cols rows cx cy) vq (d # ds))
        \<le> fill_measure grid (visitNeighbour grid cols rows cx cy vq d)"
    using Cons.IH by simp
  also have "\<dots> \<le> fill_measure grid vq" by (rule visitNeighbour_measure)
  finally show ?case .
qed

lemma floodStep_measure:
  assumes "queue s \<noteq> []"
  shows "fill_measure grid (visited (floodStep grid cols rows s), queue (floodStep grid cols rows s))
         < fill_measure grid (visited s, queue s)"
proof -
  let ?vq = "foldl (visitNeighbour grid cols rows (hd (queue s) mod cols) (hd (queue s) div cols))
               (visited s, tl (queue s)) directions"
  have "fill_measure grid ?vq \<le> fill_measure grid (visited s, tl (queue s))"
    by (rule visitNeighbours_measure)
  also have "\<dots> < fill_measure grid (visited s, queue s)"
    using assms by (simp add: fill_measure_def)
  finally show ?thesis by (simp add: floodStep_def Let_def)
qed

function floodFill :: "nat list \<Rightarrow> nat \<Rightarrow> nat \<Rightarrow> FillState \<Rightarrow> FillState" where
  "floodFill grid cols rows s =
     (if length (queue s) > 0 then floodFill grid cols rows (floodStep grid cols rows s) else s)"
  by pat_completeness auto
termination
  by (relation "measure (\<lambda>(grid, cols, rows, s). fill_measure grid (visited s, queue s))")
    (auto intro: floodStep_measure)

declare floodFill.simps [simp del]

text \<open>The region pushed for a finished flood fill.\<close>

definition regionOf :: "RawImage \<Rightarrow> FillState \<Rightarrow> DiffRegion" where
  "regionOf img s =
     (let regionWidth = (int (maxX s) - int (minX s) + 1) * int gridSize;
          regionHeight = (int (maxY s) - int (minY s) + 1) * int gridSize;
          regionArea = regionWidth * regionHeight
      in \<lparr> x = real (minX s * gridSize),
           y = real (minY s * gridSize),
           DiffRegion.width =
             real_of_int (min regionWidth (int (RawImage.width img) - int (minX s * gridSize))),
           DiffRegion.height =
             real_of_int (min regionHeight (int (RawImage.height img) - int (minY s * gridSize))),
           diffIntensity =
             (if regionArea > 0 then real (total s) / real_of_int regionArea else 0),
           pixelCount = real (total s) \<rparr>)"

text \<open>
  The body of the loop over the grid cells, on the visited set and the regions found so far.
\<close>

definition scanCell ::
  "RawImage \<Rightarrow> nat list \<Rightarrow> real \<Rightarrow> nat set \<times> DiffRegion list \<Rightarrow> nat \<Rightarrow> nat set \<times> DiffRegion list" where
  "scanCell img grid minRegionSize st i =
     (if grid ! i = 0 \<or> i \<in> fst st then st
      else
        (let s = floodFill grid (gridCols img) (gridRows img)
                   \<lparr> queue = [i], visited = insert i (fst st),
                     minX = gridCols img, maxX = 0, minY = gridRows img, maxY = 0,
                     total = 0 \<rparr>
         in if real (total s) < minRegionSize then (visited s, snd st)
            else (visited s, snd st @ [regionOf img s])))"

text \<open>
  The final \<open>regions.sort((a, b) => b.diffIntensity - a.diffIntensity)\<close> is the stable sort
  by descending intensity.
\<close>

definition findDiffRegions :: "RawImage \<Rightarrow> real \<Rightarrow> DiffRegion list" where
  "findDiffRegions img minRegionSize =
     (let grid = buildGrid img;
          regions = snd (foldl (scanCell img grid minRegionSize) ({}, []) [0..<length grid])
      in sort_key (\<lambda>r. - diffIntensity r) regions)"

text \<open>
  The pixels of the image that exceed the brightness threshold and lie in the box of a
  region.
\<close>

definition above_threshold_in :: "RawImage \<Rightarrow> DiffRegion \<Rightarrow> (nat \<times> nat) set" where
  "above_threshold_in img r =
     {p. fst p < RawImage.width img \<and> snd p < RawImage.height img \<and>
         redAbove img (fst p) (snd p) \<and>
         x r \<le> real (fst p) \<and> real (fst p) < x r + DiffRegion.width r \<and>
         y r \<le> real (snd p) \<and> real (snd p) < y r + DiffRegion.height r}"


section \<open>The comparison pipeline (core/comparator.ts, agent/loop.ts)\<close>

text \<open>
  \<open>compareImages\<close> is modelled from the results of the image libraries: the aligned
  grayscale bytes that \<open>computeSSIM\<close> reads, and the pixel difference with its decoded diff
  image. The heat map, the screenshot and the crops are images that it passes on; the model
  leaves them out.
\<close>

definition compareImages ::
  "nat list \<Rightarrow> nat list \<Rightarrow> nat \<Rightarrow> nat \<Rightarrow> real \<Rightarrow> PixelDiffResult \<Rightarrow> ComparisonResult" where
  "compareImages designGray screenshotGray w h elapsed pixelResult =
     (let ssimResult = computeSSIM designGray screenshotGray w h elapsed;
          regions = findDiffRegions (diffImageBuffer pixelResult) 100;
          composite = computeCompositeScore
                        \<lparr> Scores.ssim = mssim ssimResult, layout = None, vision = None \<rparr>
      in \<lparr> ComparisonResult.ssim = ssimResult, pixelDiff = pixelResult,
           diffRegions = regions, compositeScore = composite \<rparr>)"

text \<open>
  The score that \<open>runBoulderLoop\<close> computes after the comparison, from the comparison's
  \<open>mssim\<close> and the vision score when the vision comparison gave one.
\<close>

definition loopCompositeScore :: "ComparisonResult \<Rightarrow> real option \<Rightarrow> real" where
  "loopCompositeScore cmp visionScore =
     computeCompositeScore
       \<lparr> Scores.ssim = mssim (ComparisonResult.ssim cmp), layout = None, vision = visionScore \<rparr>"


section \<open>Invariants of the region extractor\<close>

text \<open>
  A pixel, given by its row and column, that is above the threshold and falls in the cell \<open>c\<close>.
\<close>

definition hot :: "RawImage \<Rightarrow> nat \<Rightarrow> nat \<times> nat \<Rightarrow> bool" where
  "hot img c p = (redAbove img (snd p) (fst p) \<and> cellOf img (snd p) (fst p) = c)"

text \<open>
  The pixels in the order of the two counting loops, each as row and column.
\<close>

definition pixels :: "RawImage \<Rightarrow> (nat \<times> nat) list" where
  "pixels img = List.product [0..<RawImage.height img] [0..<RawImage.width img]"

text \<open>
  The invariant of the flood fill, for the set \<open>D\<close> of the cells taken from the queue so
  far: these cells and the queued ones are distinct cells of the grid and are all visited,
  \<open>total\<close> is the sum of the counts of the cells of \<open>D\<close>, and the bounds enclose them.
\<close>

definition fill_inv :: "nat list \<Rightarrow> nat \<Rightarrow> nat \<Rightarrow> nat set \<Rightarrow> FillState \<Rightarrow> bool" where
  "fill_inv grid cols rows D s \<longleftrightarrow>
     finite D \<and> D \<subseteq> {..<cols * rows} \<and>
     set (queue s) \<subseteq> {..<cols * rows} \<and> distinct (queue s) \<and>
     set (queue s) \<inter> D = {} \<and> D \<union> set (queue s) \<subseteq> visited s \<and>
     total s = (\<Sum>c\<in>D. grid ! c) \<and>
     (\<forall>c\<in>D. minX s \<le> c mod cols \<and> c mod cols \<le> maxX s \<and>
             minY s \<le> c div cols \<and> c div cols \<le> maxY s)"

text \<open>
  The part of the invariant that the loop over the directions maintains.
\<close>

definition pending_ok :: "nat \<Rightarrow> nat \<Rightarrow> nat set \<Rightarrow> nat set \<times> nat list \<Rightarrow> bool" where
  "pending_ok cols rows D vq \<longleftrightarrow>
     set (snd vq) \<subseteq> {..<cols * rows} \<and> distinct (snd vq) \<and>
     set (snd vq) \<inter> D = {} \<and> D \<union> set (snd vq) \<subseteq> fst vq"

text \<open>
  The pixels of the image, each as column and row, that are above the threshold and fall in the cell \<open>c\<close>.
\<close>

definition cell_pixels :: "RawImage \<Rightarrow> nat \<Rightarrow> (nat \<times> nat) set" where
  "cell_pixels img c =
     {p. fst p < RawImage.width img \<and> snd p < RawImage.height img \<and>
         redAbove img (fst p) (snd p) \<and> cellOf img (fst p) (snd p) = c}"

text \<open>
  What every region pushed by the scan satisfies.
\<close>

definition region_ok :: "RawImage \<Rightarrow> DiffRegion \<Rightarrow> bool" where
  "region_ok img r \<longleftrightarrow>
     DiffRegion.width r > 0 \<and> DiffRegion.height r > 0 \<and>
     0 \<le> diffIntensity r \<and> diffIntensity r \<le> 1 \<and>
     pixelCount r \<le> real (card (above_threshold_in img r)) \<and>
     (\<exists>P. P \<subseteq> above_threshold_in img r \<and> pixelCount r = real (card P))"

text \<open>
  An image of two pixels in one row, both above the threshold, with the states of its flood fill and its region.
\<close>

definition twoPixels :: RawImage where
  "twoPixels = \<lparr> RawImage.width = 2, RawImage.height = 1,
                 rawData = [255, 0, 0, 255, 255, 0, 0, 255] \<rparr>"

definition twoPixelsStart :: FillState where
  "twoPixelsStart = \<lparr> queue = [0], visited = {0}, minX = Suc 0, maxX = 0,
                      minY = Suc 0, maxY = 0, total = 0 \<rparr>"

definition twoPixelsFilled :: FillState where
  "twoPixelsFilled = \<lparr> queue = [], visited = {0}, minX = 0, maxX = 0,
                       minY = 0, maxY = 0, total = 2 \<rparr>"

definition twoPixelsRegion :: DiffRegion where
  "twoPixelsRegion = \<lparr> x = 0, y = 0, DiffRegion.width = 2, DiffRegion.height = 1,
                       diffIntensity = 2 / 1024, pixelCount = 2 \<rparr>"

section \<open>Properties of the analyzer\<close>

lemma slice_last3_stalled:
  "(length (slice_last3 history) \<ge> 3
      \<and> list_all (\<lambda>r. category r = C_stalled) (slice_last3 history))
   = last3_stalled history"
proof (cases "3 \<le> length history")
  case False
  then show ?thesis by (simp add: slice_last3_def last3_stalled_def)
next
  case True
  define n where "n = length history - 3"
  have len: "length history = n + 3" using True by (simp add: n_def)
  have a: "drop n history = history ! n # drop (Suc n) history"
    by (rule Cons_nth_drop_Suc[symmetric]) (simp add: len)
  have b: "drop (Suc n) history = history ! Suc n # drop (Suc (Suc n)) history"
    by (rule Cons_nth_drop_Suc[symmetric]) (simp add: len)
  have c: "drop (Suc (Suc n)) history = history ! Suc (Suc n) # drop (Suc (Suc (Suc n))) history"
    by (rule Cons_nth_drop_Suc[symmetric]) (simp add: len)
  have e: "drop (Suc (Suc (Suc n))) history = []"
    by (simp add: len)
  have d: "drop n history = [history ! n, history ! Suc n, history ! Suc (Suc n)]"
    by (simp only: a b c e)
  have idx: "length history - 1 = Suc (Suc n)" "length history - 2 = Suc n"
    "length history - 3 = n"
    using len by simp_all
  show ?thesis
    unfolding slice_last3_def last3_stalled_def idx n_def[symmetric] d
    using True by auto
qed

lemma bestIteration_first_best:
  assumes "history \<noteq> []"
  shows "first_best history (bestIteration history)"
  using assms
proof (induction history rule: rev_induct)
  case Nil
  then show ?case by simp
next
  case (snoc x xs)
  show ?case
  proof (cases "xs = []")
    case True
    then show ?thesis by (simp add: first_best_def bestIteration_def)
  next
    case False
    with snoc.IH obtain i where i: "i < length xs" "bestIteration xs = xs ! i"
      "\<forall>j < length xs. score (xs ! j) \<le> score (xs ! i)"
      "\<forall>j < i. score (xs ! j) < score (xs ! i)"
      by (auto simp: first_best_def)
    have step: "bestIteration (xs @ [x]) =
        (if score x > score (xs ! i) then x else xs ! i)"
      using False i(2) by (simp add: bestIteration_def)
    show ?thesis
    proof (cases "score x > score (xs ! i)")
      case True
      have le: "score (xs ! j) \<le> score x" if "j < length xs" for j
        using i(3) True that by fastforce
      have "\<forall>j < length (xs @ [x]). score ((xs @ [x]) ! j) \<le> score x"
        using le by (auto simp: nth_append less_Suc_eq)
      moreover have "\<forall>j < length xs. score ((xs @ [x]) ! j) < score x"
        using i(3) True by (fastforce simp: nth_append)
      ultimately show ?thesis
        unfolding first_best_def step using True
        by (intro exI[where x="length xs"]) simp
    next
      case nle: False
      have "\<forall>j < length (xs @ [x]). score ((xs @ [x]) ! j) \<le> score (xs ! i)"
        using i(1,3) nle by (auto simp: nth_append less_Suc_eq)
      moreover have "\<forall>j < i. score ((xs @ [x]) ! j) < score (xs ! i)"
        using i(1,4) by (auto simp: nth_append)
      ultimately show ?thesis
        unfolding first_best_def step using nle i(1)
        by (intro exI[where x=i]) (simp add: nth_append)
    qed
  qed
qed

text \<open>
  Claim C3. \<open>categorizeIteration\<close> returns \<open>first\<close> whenever there is no previous score.
  Otherwise it returns the first match in the order achieved, improved, regressed, stalled:
  the code agrees with \<open>categorize_spec\<close>, whose last rule asks for
  \<open>|current - previous| \<le> improvementThreshold\<close>, so that rule always matches when the
  earlier ones do not. The two calls of the specification give \<open>achieved\<close> and
  \<open>regressed\<close>.
\<close>

theorem categorizeIteration_precedence:
  "categorizeIteration c None t i = C_first \<and>
   categorize_spec c p t i = Some (categorizeIteration c p t i) \<and>
   categorizeIteration 0.96 (Some 0.8) 0.95 0.01 = C_achieved \<and>
   categorizeIteration 0.8 (Some 0.85) 0.95 0.01 = C_regressed"
  by (auto simp: categorizeIteration_def categorize_spec_def split: option.splits)

text \<open>
  Claim C1. \<open>suggestStrategy\<close> evaluates its stop conditions in priority order: a score at
  or above the threshold stops with \<open>success\<close> whatever the history; otherwise a history
  of at least \<open>maxIterations\<close> entries stops with \<open>max_iterations\<close>; otherwise three
  last entries all \<open>stalled\<close> stop with \<open>converged\<close>; in every other case
  \<open>shouldStop\<close> is false.
\<close>

theorem suggestStrategy_stop_priority:
  "shouldStop (suggestStrategy s h c) =
     (s \<ge> threshold (comparison c) \<or> int (length h) \<ge> maxIterations (comparison c)
        \<or> last3_stalled h) \<and>
   stopReason (suggestStrategy s h c) =
     (if s \<ge> threshold (comparison c) then Some Success
      else if int (length h) \<ge> maxIterations (comparison c) then Some Max_iterations
      else if last3_stalled h then Some Converged
      else None)"
  unfolding suggestStrategy_def slice_last3_stalled by simp

theorem suggestStrategy_stop_priority_witness:
  "(let r = suggestStrategy 0.96 [] mockConfig in shouldStop r \<and> stopReason r = Some Success) \<and>
   (let r = suggestStrategy 0.503 [mkRecord 1 0.5 Full_regen C_stalled,
        mkRecord 2 0.501 Full_regen C_stalled, mkRecord 3 0.502 Full_regen C_stalled] mockConfig
    in shouldStop r \<and> stopReason r = Some Converged) \<and>
   (let r = suggestStrategy 0.6
        (map (\<lambda>i. mkRecord (int i + 1) (0.5 + real i * 0.01) Full_regen C_improved) [0..<10])
        mockConfig
    in shouldStop r \<and> stopReason r = Some Max_iterations) \<and>
   (let r = suggestStrategy 0.5 [] mockConfig in \<not> shouldStop r \<and> stopReason r = None)"
  using suggestStrategy_stop_priority [of "0.96" "[]" mockConfig]
    suggestStrategy_stop_priority [of "0.6"
      "map (\<lambda>i. mkRecord (int i + 1) (0.5 + real i * 0.01) Full_regen C_improved) [0..<10]"
      mockConfig]
    suggestStrategy_stop_priority [of "0.503" "[mkRecord 1 0.5 Full_regen C_stalled,
        mkRecord 2 0.501 Full_regen C_stalled, mkRecord 3 0.502 Full_regen C_stalled]" mockConfig]
    suggestStrategy_stop_priority [of "0.5" "[]" mockConfig]
  by (simp add: mockConfig_def mkRecord_def last3_stalled_def Let_def)


text \<open>
  Claim C2. For a non-empty history on which no stop condition fired, when the last recorded
  score is strictly greater than the current score, \<open>suggestStrategy\<close> does not stop,
  asks for a rollback to the iteration number of the best-scoring entry of the whole history
  (the first one among equals), and returns the flip of the last entry's strategy. For the
  history of one entry (iteration 1, score 0.80, \<open>full_regen\<close>) and the current score 0.75
  it asks for a rollback to 1 with \<open>surgical_patch\<close>.
\<close>

theorem suggestStrategy_regression:
  "(history \<noteq> [] \<and> no_stop_condition s history config \<and> score (last history) > s \<longrightarrow>
      (let r = suggestStrategy s history config in
         \<not> shouldStop r \<and> shouldRollback r \<and>
         (\<exists>b. first_best history b \<and> rollbackTo r = Some (iteration b)) \<and>
         StrategyRecommendation.strategy r
           = flip_strategy (IterationRecord.strategy (last history)))) \<and>
   (iteration e = 1 \<and> score e = 0.80 \<and> IterationRecord.strategy e = Full_regen \<and>
    no_stop_condition 0.75 [e] config \<longrightarrow>
      (let r = suggestStrategy 0.75 [e] config in
         shouldRollback r \<and> rollbackTo r = Some 1 \<and>
         StrategyRecommendation.strategy r = Surgical_patch))"
proof (intro conjI impI)
  assume a: "history \<noteq> [] \<and> no_stop_condition s history config \<and> score (last history) > s"
  then have fb: "first_best history (bestIteration history)"
    by (simp add: bestIteration_first_best)
  have flip: "alternateStrategy st = flip_strategy st" for st
    by (cases st) (simp_all add: alternateStrategy_def flip_strategy_def)
  show "let r = suggestStrategy s history config in
         \<not> shouldStop r \<and> shouldRollback r \<and>
         (\<exists>b. first_best history b \<and> rollbackTo r = Some (iteration b)) \<and>
         StrategyRecommendation.strategy r
           = flip_strategy (IterationRecord.strategy (last history))"
    using a fb unfolding suggestStrategy_def slice_last3_stalled no_stop_condition_def Let_def
    by (auto simp: flip)
next
  assume a: "iteration e = 1 \<and> score e = 0.80 \<and> IterationRecord.strategy e = Full_regen \<and>
    no_stop_condition 0.75 [e] config"
  then show "let r = suggestStrategy 0.75 [e] config in
         shouldRollback r \<and> rollbackTo r = Some 1 \<and>
         StrategyRecommendation.strategy r = Surgical_patch"
    unfolding suggestStrategy_def slice_last3_stalled no_stop_condition_def Let_def
    by (simp add: bestIteration_def alternateStrategy_def)
qed

theorem suggestStrategy_regression_witness:
  "no_stop_condition 0.75 [mkRecord 1 0.80 Full_regen C_first] mockConfig \<and>
   score (last [mkRecord 1 0.80 Full_regen C_first]) > 0.75 \<and>
   (let r = suggestStrategy 0.75 [mkRecord 1 0.80 Full_regen C_first] mockConfig in
      \<not> shouldStop r \<and> shouldRollback r \<and> rollbackTo r = Some 1 \<and>
      StrategyRecommendation.strategy r = Surgical_patch)"
proof -
  let ?e = "mkRecord 1 0.80 Full_regen C_first"
  have h: "no_stop_condition 0.75 [?e] mockConfig"
    by (simp add: no_stop_condition_def mockConfig_def last3_stalled_def)
  have g: "score (last [?e]) > 0.75"
    by (simp add: mkRecord_def)
  have f: "iteration ?e = 1 \<and> score ?e = 0.80 \<and> IterationRecord.strategy ?e = Full_regen"
    by (simp add: mkRecord_def)
  from suggestStrategy_regression [of "[?e]" "0.75" mockConfig ?e] h g f
  show ?thesis by (simp add: Let_def flip_strategy_def)
qed

text \<open>
  Claim C10. Every recommendation of \<open>suggestStrategy\<close> is well-formed: \<open>shouldStop\<close>
  and \<open>shouldRollback\<close> are never both true, \<open>rollbackTo\<close> is present exactly when
  \<open>shouldRollback\<close> is true, \<open>stopReason\<close> is present exactly when \<open>shouldStop\<close> is
  true, and a stop always comes with the strategy \<open>surgical_patch\<close>.
\<close>

theorem suggestStrategy_well_formed:
  "(let r = suggestStrategy s h c in
      \<not> (shouldStop r \<and> shouldRollback r) \<and>
      (rollbackTo r \<noteq> None) = shouldRollback r \<and>
      (stopReason r \<noteq> None) = shouldStop r \<and>
      (shouldStop r \<longrightarrow> StrategyRecommendation.strategy r = Surgical_patch))"
  by (simp add: suggestStrategy_def Let_def)

theorem suggestStrategy_well_formed_witness:
  "(let r = suggestStrategy 0.96 [] mockConfig in
      shouldStop r \<and> \<not> shouldRollback r \<and> rollbackTo r = None \<and>
      stopReason r \<noteq> None \<and> StrategyRecommendation.strategy r = Surgical_patch)"
  using suggestStrategy_well_formed [of "0.96" "[]" mockConfig]
  by (simp add: Let_def suggestStrategy_def mockConfig_def)

section \<open>Properties of the composite score and of the report\<close>

lemma clamp01_unit: "clamp01 v = clamp_unit v"
  by (simp add: clamp01_def clamp_unit_def)

lemma clamp01_range: "0 \<le> clamp01 v \<and> clamp01 v \<le> 1"
  by (simp add: clamp01_def)

text \<open>
  Claim C4. For all real inputs, also outside the unit interval, \<open>computeCompositeScore\<close>
  is the clamp to [0,1] of \<open>0.3 ssim + 0.3 layout + 0.4 vision\<close> when layout and vision are
  both present, of \<open>0.4 ssim + 0.6 vision\<close> when only vision is, of
  \<open>0.5 ssim + 0.5 layout\<close> when only layout is, and of \<open>ssim\<close> otherwise. So
  \<open>{ssim: 1}\<close> gives 1, \<open>{ssim: 0, vision: 1}\<close> gives 0.6, \<open>{ssim: 1, vision: 0}\<close>
  gives 0.4, and the result always lies in [0,1].
\<close>

theorem computeCompositeScore_formula:
  "computeCompositeScore \<lparr> Scores.ssim = s, layout = Some l, vision = Some v \<rparr>
     = clamp_unit (0.3 * s + 0.3 * l + 0.4 * v) \<and>
   computeCompositeScore \<lparr> Scores.ssim = s, layout = None, vision = Some v \<rparr>
     = clamp_unit (0.4 * s + 0.6 * v) \<and>
   computeCompositeScore \<lparr> Scores.ssim = s, layout = Some l, vision = None \<rparr>
     = clamp_unit (0.5 * s + 0.5 * l) \<and>
   computeCompositeScore \<lparr> Scores.ssim = s, layout = None, vision = None \<rparr>
     = clamp_unit s \<and>
   computeCompositeScore \<lparr> Scores.ssim = 1, layout = None, vision = None \<rparr> = 1 \<and>
   computeCompositeScore \<lparr> Scores.ssim = 0, layout = None, vision = Some 1 \<rparr> = 0.6 \<and>
   computeCompositeScore \<lparr> Scores.ssim = 1, layout = None, vision = Some 0 \<rparr> = 0.4 \<and>
   0 \<le> computeCompositeScore scores \<and> computeCompositeScore scores \<le> 1"
proof -
  have r: "0 \<le> computeCompositeScore scores \<and> computeCompositeScore scores \<le> 1"
    unfolding computeCompositeScore_def using clamp01_range by simp
  have f: "computeCompositeScore \<lparr> Scores.ssim = s, layout = Some l, vision = Some v \<rparr>
       = clamp_unit (0.3 * s + 0.3 * l + 0.4 * v)"
    "computeCompositeScore \<lparr> Scores.ssim = s, layout = None, vision = Some v \<rparr>
       = clamp_unit (0.4 * s + 0.6 * v)"
    "computeCompositeScore \<lparr> Scores.ssim = s, layout = Some l, vision = None \<rparr>
       = clamp_unit (0.5 * s + 0.5 * l)"
    "computeCompositeScore \<lparr> Scores.ssim = s, layout = None, vision = None \<rparr>
       = clamp_unit s" for s l v
    by (simp_all add: computeCompositeScore_def clamp01_unit mult.commute)
  have e: "computeCompositeScore \<lparr> Scores.ssim = 1, layout = None, vision = None \<rparr> = 1"
    "computeCompositeScore \<lparr> Scores.ssim = 0, layout = None, vision = Some 1 \<rparr> = 0.6"
    "computeCompositeScore \<lparr> Scores.ssim = 1, layout = None, vision = Some 0 \<rparr> = 0.4"
    by (simp_all add: computeCompositeScore_def clamp01_def)
  show ?thesis using r f e by simp
qed

text \<open>
  Claim C6. A region without a model-provided label is classified by the heuristics: wider
  or taller than 200 is \<open>position\<close>, else an intensity above 0.5 is \<open>color\<close>, else
  \<open>unknown\<close>. The priority is a function of the classification alone: missing, extra and
  position are high; size and spacing are medium; color, font and unknown are low.
\<close>

theorem classifyRegion_heuristics:
  "classifyRegion r None = Class (heuristic_class r) \<and>
   (visionDiffAt va i = None \<longrightarrow>
      classification (analyzeRegion va (r, i)) = Class (heuristic_class r) \<and>
      priority (analyzeRegion va (r, i)) = Some (priority_of_class (heuristic_class r))) \<and>
   assignPriority (Class c) = Some (priority_of_class c) \<and>
   priority (analyzeRegion va (r, i))
     = (case classification (analyzeRegion va (r, i)) of
          Class k \<Rightarrow> Some (priority_of_class k)
        | Inherited l \<Rightarrow> None)"
proof -
  have a: "assignPriority (Class k) = Some (priority_of_class k)" for k
    by (cases k) (simp_all add: priority_of_class_def)
  have b: "assignPriority v = (case v of Class k \<Rightarrow> Some (priority_of_class k) | Inherited l \<Rightarrow> None)"
    for v
    by (cases v) (simp_all add: a)
  have c: "classifyRegion r None = Class (heuristic_class r)"
    by (simp add: classifyRegion_def heuristic_class_def)
  have d: "priority (analyzeRegion va (r, i)) = assignPriority (classification (analyzeRegion va (r, i)))"
    by (simp add: analyzeRegion_def Let_def)
  have e: "classification (analyzeRegion va (r, i)) = classifyRegion r (visionDiffAt va i)"
    by (simp add: analyzeRegion_def Let_def)
  show ?thesis
    unfolding d e using a b c by simp
qed

theorem classifyRegion_heuristics_witness:
  "visionDiffAt None 0 = None \<and>
   classification (analyzeRegion None (diffRegions mockComparisonResult ! 0, 0)) = Class Unknown \<and>
   classification (analyzeRegion None (diffRegions mockComparisonResult ! 1, 1)) = Class Position \<and>
   priority (analyzeRegion None (diffRegions mockComparisonResult ! 1, 1)) = Some High"
  using classifyRegion_heuristics [of "diffRegions mockComparisonResult ! 0" None 0]
    classifyRegion_heuristics [of "diffRegions mockComparisonResult ! 1" None 1]
  by (simp add: visionDiffAt_def heuristic_class_def priority_of_class_def mockComparisonResult_def)

lemma region_analyzeRegion: "region (analyzeRegion va ri) = fst ri"
  by (simp add: analyzeRegion_def Let_def)

lemma map_region_mapped: "map region (mappedRegions cmp va) = diffRegions cmp"
proof -
  have "map region (mappedRegions cmp va)
      = map fst (zip (diffRegions cmp) [0..<length (diffRegions cmp)])"
    unfolding mappedRegions_def map_map by (rule map_cong) (simp_all add: region_analyzeRegion)
  also have "\<dots> = diffRegions cmp" by (rule map_fst_zip) simp
  finally show ?thesis .
qed

text \<open>
  Claim C7 asks the regions of every report to be sorted by priority, high before medium
  before low, for every comparison result and vision analysis. The code does not deliver
  this: for three regions that the analysis labels \<open>color\<close>, \<open>toString\<close> and
  \<open>missing\<close>, the second label is found in \<open>Object.prototype\<close>, the region gets a
  classification that is none of the eight and the priority \<open>undefined\<close>, and the report
  lists the regions in the order of the input, the low one before the high one.
\<close>

theorem analyzeDifferences_inherited_label_unsorted:
  "(let rep = analyzeDifferences threeRegions (Some inheritedLabelAnalysis) in
      map classification (regions rep)
        = [Class Color, Inherited ''toString'', Class Missing] \<and>
      map priority (regions rep) = [Some Low, None, Some High] \<and>
      map region (regions rep) = diffRegions threeRegions)"
proof -
  have t: "typeMap ''color'' = Some (Class Color)"
    "typeMap ''toString'' = Some (Inherited ''toString'')"
    "typeMap ''missing'' = Some (Class Missing)"
    by (simp_all add: typeMap_def typeMapEntries_def objectPrototypeKeys_def)
  have m: "map (\<lambda>a. (classification a, priority a, region a))
             (mappedRegions threeRegions (Some inheritedLabelAnalysis))
           = [(Class Color, Some Low, diffRegions threeRegions ! 0),
              (Inherited ''toString'', None, diffRegions threeRegions ! 1),
              (Class Missing, Some High, diffRegions threeRegions ! 2)]"
    by (simp add: mappedRegions_def analyzeRegion_def visionDiffAt_def classifyRegion_def
        threeRegions_def inheritedLabelAnalysis_def labelled_def t upt_rec Let_def)
  then obtain a b c where abc: "mappedRegions threeRegions (Some inheritedLabelAnalysis) = [a, b, c]"
    and pa: "classification a = Class Color" "priority a = Some Low"
      "region a = diffRegions threeRegions ! 0"
    and pb: "classification b = Inherited ''toString''" "priority b = None"
      "region b = diffRegions threeRegions ! 1"
    and pc: "classification c = Class Missing" "priority c = Some High"
      "region c = diffRegions threeRegions ! 2"
    by (auto simp: map_eq_Cons_conv)
  have s: "arraySort comparePriority [a, b, c] = [a, b, c]"
    by (simp add: arraySort_def sortCompare_def comparePriority_def pa pb pc)
  have d: "diffRegions threeRegions
        = [diffRegions threeRegions ! 0, diffRegions threeRegions ! 1, diffRegions threeRegions ! 2]"
    by (simp add: threeRegions_def)
  show ?thesis
    unfolding Let_def analyzeDifferences_def abc s
    using pa pb pc d by simp
qed

text \<open>
  When no label of the analysis names a member of \<open>Object.prototype\<close>, every priority is
  defined, the comparator orders the regions consistently, and the report lists all high
  regions before all medium ones before all low ones, each group in the order of the input
  regions. The overall score is the vision similarity score when there is an analysis and
  the composite score otherwise, and the suggested strategy is \<open>full_regen\<close> when that
  score is below 0.7 and \<open>surgical_patch\<close> otherwise, whatever the labels.
\<close>

lemma sorted3_split:
  fixes f :: "'a \<Rightarrow> real"
  assumes "sorted (map f xs)" "\<forall>v \<in> set xs. f v = 0 \<or> f v = 1 \<or> f v = 2"
  shows "xs = filter (\<lambda>v. f v = 0) xs @ filter (\<lambda>v. f v = 1) xs @ filter (\<lambda>v. f v = 2) xs"
  using assms
proof (induction xs)
  case Nil
  then show ?case by simp
next
  case (Cons a xs)
  then have ih: "xs = filter (\<lambda>v. f v = 0) xs @ filter (\<lambda>v. f v = 1) xs @ filter (\<lambda>v. f v = 2) xs"
    by simp
  have ge: "\<forall>v \<in> set xs. f a \<le> f v" using Cons.prems(1) by simp
  consider "f a = 0" | "f a = 1" | "f a = 2" using Cons.prems(2) by auto
  then show ?case
  proof cases
    case 1
    then show ?thesis using ih by simp
  next
    case 2
    then have "filter (\<lambda>v. f v = 0) xs = []" using ge by (auto simp: filter_empty_conv)
    then show ?thesis using 2 ih by simp
  next
    case 3
    then have "filter (\<lambda>v. f v = 0) xs = []" "filter (\<lambda>v. f v = 1) xs = []"
      using ge by (auto simp: filter_empty_conv)
    then show ?thesis using 3 ih by simp
  qed
qed

lemma insertSorted_insort:
  assumes "priority a \<noteq> None" "\<forall>b \<in> set bs. priority b \<noteq> None"
  shows "insertSorted comparePriority a bs = insort_key priorityRank a bs"
  using assms(2)
proof (induction bs)
  case Nil
  then show ?case by simp
next
  case (Cons b bs)
  obtain p q where p: "priority a = Some p" and q: "priority b = Some q"
    using assms(1) Cons.prems by auto
  have "sortCompare comparePriority a b = priorityRank a - priorityRank b"
    by (cases p; cases q) (simp_all add: sortCompare_def comparePriority_def priorityRank_def p q)
  then have "(sortCompare comparePriority a b \<le> 0) = (priorityRank a \<le> priorityRank b)"
    by simp
  then show ?case using Cons by simp
qed

lemma arraySort_sort_key:
  assumes "\<forall>a \<in> set xs. priority a \<noteq> None"
  shows "arraySort comparePriority xs = sort_key priorityRank xs"
  using assms
proof (induction xs)
  case Nil
  then show ?case by (simp add: arraySort_def)
next
  case (Cons a xs)
  have ih: "foldr (insertSorted comparePriority) xs [] = sort_key priorityRank xs"
    using Cons by (simp add: arraySort_def)
  have "\<forall>b \<in> set (sort_key priorityRank xs). priority b \<noteq> None"
    using Cons.prems by simp
  then have "insertSorted comparePriority a (sort_key priorityRank xs)
      = insort_key priorityRank a (sort_key priorityRank xs)"
    using Cons.prems by (intro insertSorted_insort) simp_all
  then show ?case by (simp add: arraySort_def ih sort_key_def)
qed

lemma typeMap_own_label:
  assumes "l \<notin> set objectPrototypeKeys"
  shows "\<exists>k. (case typeMap l of Some v \<Rightarrow> v | None \<Rightarrow> Class Unknown) = Class k"
  using assms by (simp add: typeMap_def split: option.splits)

lemma own_labels_priority:
  assumes "own_labels va"
  shows "\<forall>a \<in> set (mappedRegions cmp va). priority a \<noteq> None"
proof
  fix a assume "a \<in> set (mappedRegions cmp va)"
  then obtain r i where a: "a = analyzeRegion va (r, i)"
    by (auto simp: mappedRegions_def)
  have "\<exists>k. classifyRegion r (visionDiffAt va i) = Class k"
  proof (cases "visionDiffAt va i")
    case None
    then show ?thesis by (simp add: classifyRegion_def)
  next
    case (Some vd)
    then obtain v where v: "va = Some v" "i < length (differences v)" "vd = differences v ! i"
      by (auto simp: visionDiffAt_def split: option.splits if_splits)
    then have "type vd \<notin> set objectPrototypeKeys"
      using assms by (simp add: own_labels_def list_all_length)
    from typeMap_own_label[OF this] show ?thesis
      using Some by (simp add: classifyRegion_def)
  qed
  then obtain k where "classification a = Class k"
    by (auto simp: a analyzeRegion_def Let_def)
  then have "priority a = Some (priority_of_class k)"
    by (cases k) (simp_all add: a analyzeRegion_def Let_def priority_of_class_def)
  then show "priority a \<noteq> None" by simp
qed

lemma priorityRank_eq:
  assumes "priority a \<noteq> None"
  shows "(priorityRank a = 0) = (priority a = Some High)"
    "(priorityRank a = 1) = (priority a = Some Medium)"
    "(priorityRank a = 2) = (priority a = Some Low)"
proof -
  obtain p where "priority a = Some p" using assms by auto
  then show "(priorityRank a = 0) = (priority a = Some High)"
    "(priorityRank a = 1) = (priority a = Some Medium)"
    "(priorityRank a = 2) = (priority a = Some Low)"
    by (cases p; simp add: priorityRank_def)+
qed

lemma analyzeDifferences_sorted_stable_own_labels:
  assumes "own_labels va"
  shows "(let rep = analyzeDifferences cmp va; input = mappedRegions cmp va in
      map region input = diffRegions cmp \<and>
      sorted (map priorityRank (regions rep)) \<and>
      regions rep = filter (\<lambda>r. priority r = Some High) input
                    @ filter (\<lambda>r. priority r = Some Medium) input
                    @ filter (\<lambda>r. priority r = Some Low) input)"
proof -
  let ?in = "mappedRegions cmp va"
  let ?rs = "sort_key priorityRank ?in"
  have def: "\<forall>a \<in> set ?in. priority a \<noteq> None"
    using assms by (rule own_labels_priority)
  have rs: "arraySort comparePriority ?in = ?rs"
    using def by (rule arraySort_sort_key)
  have s: "sorted (map priorityRank ?rs)" by (rule sorted_sort_key)
  have st: "filter (\<lambda>r. priorityRank r = k) ?rs = filter (\<lambda>r. priorityRank r = k) ?in" for k
    by (rule sort_key_stable)
  have three: "\<forall>a \<in> set ?rs. priorityRank a = 0 \<or> priorityRank a = 1 \<or> priorityRank a = 2"
  proof
    fix a assume "a \<in> set ?rs"
    then have "priority a \<noteq> None" using def by simp
    then obtain p where "priority a = Some p" by auto
    then show "priorityRank a = 0 \<or> priorityRank a = 1 \<or> priorityRank a = 2"
      by (cases p) (simp_all add: priorityRank_def)
  qed
  have "?rs = filter (\<lambda>r. priorityRank r = 0) ?rs @ filter (\<lambda>r. priorityRank r = 1) ?rs
              @ filter (\<lambda>r. priorityRank r = 2) ?rs"
    using s three by (rule sorted3_split)
  then have "?rs = filter (\<lambda>r. priorityRank r = 0) ?in @ filter (\<lambda>r. priorityRank r = 1) ?in
              @ filter (\<lambda>r. priorityRank r = 2) ?in"
    by (simp only: st)
  moreover have "filter (\<lambda>r. priorityRank r = 0) ?in = filter (\<lambda>r. priority r = Some High) ?in"
    "filter (\<lambda>r. priorityRank r = 1) ?in = filter (\<lambda>r. priority r = Some Medium) ?in"
    "filter (\<lambda>r. priorityRank r = 2) ?in = filter (\<lambda>r. priority r = Some Low) ?in"
    using def by (auto intro!: filter_cong simp: priorityRank_eq)
  ultimately have split: "?rs = filter (\<lambda>r. priority r = Some High) ?in
                    @ filter (\<lambda>r. priority r = Some Medium) ?in
                    @ filter (\<lambda>r. priority r = Some Low) ?in"
    by simp
  show ?thesis
    unfolding Let_def analyzeDifferences_def
    using s split rs map_region_mapped[of cmp va] by simp
qed

lemma analyzeDifferences_score:
  "(let rep = analyzeDifferences cmp va in
      overallScore rep = (case va of Some v \<Rightarrow> similarityScore v | None \<Rightarrow> compositeScore cmp) \<and>
      suggestedStrategy rep = (if overallScore rep < 0.7 then Full_regen else Surgical_patch))"
  by (simp add: analyzeDifferences_def Let_def)


section \<open>Properties of the structural similarity score\<close>

lemma ssimRow_sum:
  "8 dvd x0 \<Longrightarrow> x0 div 8 \<le> w div 8 \<Longrightarrow>
   ssimRow dg sg w y0 x0 acc =
     (fst acc + sum_list (map (\<lambda>k. windowSSIM dg sg w (8 * k) y0) [x0 div 8..<w div 8]),
      snd acc + (w div 8 - x0 div 8))"
proof (induction dg sg w y0 x0 acc rule: ssimRow.induct)
  case (1 dg sg w y0 x0 acc)
  show ?case
  proof (cases "int x0 \<le> int w - int windowSize")
    case True
    then have le: "x0 + 8 \<le> w" by (simp add: windowSize_def)
    from "1.prems"(1) obtain k where k: "x0 = 8 * k" by (auto simp: dvd_def)
    have lt: "k < w div 8" using le k by simp
    have d: "(x0 + 8) div 8 = Suc k" "x0 div 8 = k" using k by simp_all
    have dv: "8 dvd x0 + windowSize" using "1.prems"(1) by (simp add: windowSize_def)
    have "ssimRow dg sg w y0 x0 acc =
        ssimRow dg sg w y0 (x0 + windowSize) (fst acc + windowSSIM dg sg w x0 y0, snd acc + 1)"
      using True by (subst ssimRow.simps) simp
    also have "\<dots> = (fst acc + windowSSIM dg sg w x0 y0
          + sum_list (map (\<lambda>k. windowSSIM dg sg w (8 * k) y0) [Suc k..<w div 8]),
          snd acc + 1 + (w div 8 - Suc k))"
      using "1.IH"[OF True dv] lt d by (simp add: windowSize_def)
    also have "\<dots> = (fst acc + sum_list (map (\<lambda>k. windowSSIM dg sg w (8 * k) y0) [k..<w div 8]),
          snd acc + (w div 8 - k))"
      using lt k by (simp add: upt_conv_Cons)
    finally show ?thesis by (simp add: d)
  next
    case False
    then have gt: "w < x0 + 8" by (simp add: windowSize_def)
    from "1.prems"(1) obtain k where k: "x0 = 8 * k" by (auto simp: dvd_def)
    have "w div 8 \<le> k" using gt k by simp
    then have e: "x0 div 8 = w div 8" using "1.prems"(2) k by simp
    have "ssimRow dg sg w y0 x0 acc = acc"
      using False by (subst ssimRow.simps) simp
    then show ?thesis by (simp add: e)
  qed
qed

lemma ssimRow_windows:
  "ssimRow dg sg w y0 0 acc =
     (fst acc + sum_list (map (\<lambda>x0. windowSSIM dg sg w x0 y0) (window_origins w)),
      snd acc + length (window_origins w))"
  using ssimRow_sum[of 0 w dg sg y0 acc]
  by (simp add: window_origins_def comp_def)

lemma ssimRows_sum:
  "8 dvd y0 \<Longrightarrow> y0 div 8 \<le> h div 8 \<Longrightarrow>
   ssimRows dg sg w h y0 acc =
     (fst acc + sum_list (map (\<lambda>j. sum_list (map (\<lambda>x0. windowSSIM dg sg w x0 (8 * j))
                                  (window_origins w))) [y0 div 8..<h div 8]),
      snd acc + (h div 8 - y0 div 8) * length (window_origins w))"
proof (induction dg sg w h y0 acc rule: ssimRows.induct)
  case (1 dg sg w h y0 acc)
  show ?case
  proof (cases "int y0 \<le> int h - int windowSize")
    case True
    then have le: "y0 + 8 \<le> h" by (simp add: windowSize_def)
    from "1.prems"(1) obtain k where k: "y0 = 8 * k" by (auto simp: dvd_def)
    have lt: "k < h div 8" using le k by simp
    have d: "(y0 + 8) div 8 = Suc k" "y0 div 8 = k" using k by simp_all
    have dv: "8 dvd y0 + windowSize" using "1.prems"(1) by (simp add: windowSize_def)
    have "ssimRows dg sg w h y0 acc =
        ssimRows dg sg w h (y0 + windowSize) (ssimRow dg sg w y0 0 acc)"
      using True by (subst ssimRows.simps) simp
    also have "\<dots> = (fst acc + sum_list (map (\<lambda>x0. windowSSIM dg sg w x0 y0) (window_origins w))
          + sum_list (map (\<lambda>j. sum_list (map (\<lambda>x0. windowSSIM dg sg w x0 (8 * j))
                                  (window_origins w))) [Suc k..<h div 8]),
          snd acc + length (window_origins w) + (h div 8 - Suc k) * length (window_origins w))"
      using "1.IH"[OF True dv] lt d by (simp add: windowSize_def ssimRow_windows)
    also have "\<dots> = (fst acc + sum_list (map (\<lambda>j. sum_list (map (\<lambda>x0. windowSSIM dg sg w x0 (8 * j))
                                  (window_origins w))) [k..<h div 8]),
          snd acc + (h div 8 - k) * length (window_origins w))"
    proof -
      have "(h div 8 - k) = Suc (h div 8 - Suc k)" using lt by simp
      then show ?thesis using lt k by (simp add: upt_conv_Cons)
    qed
    finally show ?thesis by (simp add: d)
  next
    case False
    then have gt: "h < y0 + 8" by (simp add: windowSize_def)
    from "1.prems"(1) obtain k where k: "y0 = 8 * k" by (auto simp: dvd_def)
    have "h div 8 \<le> k" using gt k by simp
    then have e: "y0 div 8 = h div 8" using "1.prems"(2) k by simp
    have "ssimRows dg sg w h y0 acc = acc"
      using False by (subst ssimRows.simps) simp
    then show ?thesis by (simp add: e)
  qed
qed

lemma sum_list_concat_map:
  fixes f :: "'b \<Rightarrow> real"
  shows "sum_list (map f (concat (map g ys))) = sum_list (map (\<lambda>y. sum_list (map f (g y))) ys)"
  by (induction ys) simp_all

lemma length_complete_windows:
  "length (complete_windows w h) = (h div 8) * (w div 8)"
  by (simp add: complete_windows_def window_origins_def length_concat comp_def sum_list_triv)

lemma ssimRows_windows:
  "ssimRows dg sg w h 0 (0, 0) =
     (sum_list (map (\<lambda>p. windowSSIM dg sg w (fst p) (snd p)) (complete_windows w h)),
      length (complete_windows w h))"
proof -
  have "sum_list (map (\<lambda>p. windowSSIM dg sg w (fst p) (snd p)) (complete_windows w h))
      = sum_list (map (\<lambda>j. sum_list (map (\<lambda>x0. windowSSIM dg sg w x0 (8 * j))
                                  (window_origins w))) [0..<h div 8])"
    unfolding complete_windows_def sum_list_concat_map
    by (simp add: window_origins_def comp_def)
  then show ?thesis
    using ssimRows_sum[of 0 h dg sg w "(0, 0)"]
    by (simp add: length_complete_windows window_origins_def)
qed

lemma window_origins_iff:
  "x0 \<in> set (window_origins n) \<longleftrightarrow> 8 dvd x0 \<and> x0 + 8 \<le> n"
proof
  assume "x0 \<in> set (window_origins n)"
  then obtain k where k: "x0 = 8 * k" "k < n div 8"
    by (auto simp: window_origins_def)
  then have "8 * Suc k \<le> n" by simp
  then show "8 dvd x0 \<and> x0 + 8 \<le> n" using k(1) by simp
next
  assume a: "8 dvd x0 \<and> x0 + 8 \<le> n"
  then obtain k where k: "x0 = 8 * k" by (auto simp: dvd_def)
  then have "k < n div 8" using a by simp
  then have "k \<in> set [0..<n div 8]" by simp
  then have "8 * k \<in> (\<lambda>k. 8 * k) ` set [0..<n div 8]" by (rule imageI)
  then show "x0 \<in> set (window_origins n)" by (simp add: window_origins_def k)
qed

lemma complete_windows_product:
  "concat (map (\<lambda>y0. map (\<lambda>x0. (x0, y0)) xs) ys)
     = map (\<lambda>p. (snd p, fst p)) (List.product ys xs)"
  by (induction ys) (simp_all add: comp_def)

lemma set_complete_windows:
  "set (complete_windows w h) = {(x0, y0). 8 dvd x0 \<and> 8 dvd y0 \<and> x0 + 8 \<le> w \<and> y0 + 8 \<le> h}"
proof -
  have "p \<in> set (complete_windows w h) \<longleftrightarrow>
        fst p \<in> set (window_origins w) \<and> snd p \<in> set (window_origins h)" for p
    unfolding complete_windows_def complete_windows_product by (cases p) force
  then show ?thesis
    unfolding window_origins_iff by (auto simp: set_eq_iff)
qed

lemma distinct_complete_windows: "distinct (complete_windows w h)"
proof -
  have d: "distinct (window_origins n)" for n
    by (simp add: window_origins_def distinct_map inj_on_def)
  have "inj_on (\<lambda>p. (snd p, fst p)) A" for A :: "(nat \<times> nat) set"
    by (auto simp: inj_on_def prod_eq_iff)
  then show ?thesis
    unfolding complete_windows_def complete_windows_product
    by (simp add: distinct_map distinct_product d)
qed

lemma window_index_in_range:
  assumes "(x0, y0) \<in> set (complete_windows w h)" "wx < 8" "wy < 8"
  shows "(y0 + wy) * w + (x0 + wx) < w * h"
proof -
  from assms have x: "x0 + wx < w" and y: "y0 + wy < h"
    by (auto simp: set_complete_windows)
  have "(y0 + wy) * w + (x0 + wx) < (y0 + wy) * w + w" using x by simp
  also have "\<dots> = Suc (y0 + wy) * w" by simp
  also have "\<dots> \<le> h * w" using y by (intro mult_le_mono1) simp
  finally show ?thesis by (simp add: mult.commute)
qed

lemma clamp_unit_eq: "max 0 (min 1 v) = clamp_unit v"
  by (simp add: clamp_unit_def)

lemma upt8: "[0..<8] = [0,1,2,3,4,5,6,7]"
  by (simp add: upt_rec)

lemma windowSums_black_white: "windowSums (replicate 64 0) (replicate 64 255) 8 0 0
   = \<lparr> sumA = 0, sumB = 16320, sumAA = 0, sumBB = 4161600, sumAB = 0 \<rparr>"
  by (simp add: windowSums_def addPixel_def windowSize_def upt8 Let_def)

lemma windowSSIM_black_white: "windowSSIM (replicate 64 0) (replicate 64 255) 8 0 0 = 1 / 10001"
  by (simp add: windowSSIM_def windowSums_black_white Let_def windowSize_def c1_def c2_def power2_eq_square)


text \<open>
  The division in \<open>windowSSIM\<close> is never a division by zero: the two variances are not
  negative, and the constants \<open>c1\<close> and \<open>c2\<close> are positive.
\<close>

lemma two_sum_le:
  fixes f :: "'a \<Rightarrow> real"
  shows "2 * sum_list (map f xs) * a
         \<le> sum_list (map (\<lambda>v. (f v)\<^sup>2) xs) + real (length xs) * a\<^sup>2"
proof (induction xs)
  case Nil
  then show ?case by simp
next
  case (Cons v xs)
  have "0 \<le> (f v - a)\<^sup>2" by simp
  then have "2 * f v * a \<le> (f v)\<^sup>2 + a\<^sup>2" by (simp add: power2_diff)
  then show ?case using Cons.IH by (simp add: algebra_simps)
qed

lemma sum_square_le:
  fixes f :: "'a \<Rightarrow> real"
  shows "(sum_list (map f xs))\<^sup>2 \<le> real (length xs) * sum_list (map (\<lambda>v. (f v)\<^sup>2) xs)"
proof (induction xs)
  case Nil
  then show ?case by simp
next
  case (Cons v xs)
  have "(f v + sum_list (map f xs))\<^sup>2
      = (f v)\<^sup>2 + 2 * sum_list (map f xs) * f v + (sum_list (map f xs))\<^sup>2"
    by (simp add: power2_sum algebra_simps)
  also have "\<dots> \<le> (f v)\<^sup>2 + (sum_list (map (\<lambda>v. (f v)\<^sup>2) xs) + real (length xs) * (f v)\<^sup>2)
                 + real (length xs) * sum_list (map (\<lambda>v. (f v)\<^sup>2) xs)"
    using Cons.IH two_sum_le[of f xs "f v"] by simp
  finally show ?case by (simp add: algebra_simps)
qed

lemma addPixel_grayAt:
  "addPixel dg sg w x0 y0 s v =
     \<lparr> sumA = sumA s + grayAt dg w x0 y0 v,
       sumB = sumB s + grayAt sg w x0 y0 v,
       sumAA = sumAA s + grayAt dg w x0 y0 v * grayAt dg w x0 y0 v,
       sumBB = sumBB s + grayAt sg w x0 y0 v * grayAt sg w x0 y0 v,
       sumAB = sumAB s + grayAt dg w x0 y0 v * grayAt sg w x0 y0 v \<rparr>"
  by (simp add: addPixel_def grayAt_def Let_def)

lemma foldl_addPixel:
  "foldl (addPixel dg sg w x0 y0) s offs =
     \<lparr> sumA = sumA s + sum_list (map (grayAt dg w x0 y0) offs),
       sumB = sumB s + sum_list (map (grayAt sg w x0 y0) offs),
       sumAA = sumAA s + sum_list (map (\<lambda>v. (grayAt dg w x0 y0 v)\<^sup>2) offs),
       sumBB = sumBB s + sum_list (map (\<lambda>v. (grayAt sg w x0 y0 v)\<^sup>2) offs),
       sumAB = sumAB s + sum_list (map (\<lambda>v. grayAt dg w x0 y0 v * grayAt sg w x0 y0 v) offs) \<rparr>"
proof (induction offs arbitrary: s)
  case Nil
  then show ?case by simp
next
  case (Cons v offs)
  show ?case
    unfolding foldl_Cons Cons.IH
    by (simp add: addPixel_grayAt power2_eq_square)
qed

lemma window_variance_nonneg:
  "0 \<le> sumAA (windowSums dg sg w x0 y0) / 64 - (sumA (windowSums dg sg w x0 y0) / 64)\<^sup>2"
  "0 \<le> sumBB (windowSums dg sg w x0 y0) / 64 - (sumB (windowSums dg sg w x0 y0) / 64)\<^sup>2"
proof -
  let ?offs = "List.product [0..<windowSize] [0..<windowSize]"
  have n: "real (length ?offs) = 64" by (simp add: windowSize_def)
  have "(sum_list (map f ?offs) / 64)\<^sup>2 \<le> sum_list (map (\<lambda>v. (f v)\<^sup>2) ?offs) / 64"
    for f :: "nat \<times> nat \<Rightarrow> real"
    using sum_square_le[of f ?offs] unfolding n by (simp add: power_divide)
  then show
    "0 \<le> sumAA (windowSums dg sg w x0 y0) / 64 - (sumA (windowSums dg sg w x0 y0) / 64)\<^sup>2"
    "0 \<le> sumBB (windowSums dg sg w x0 y0) / 64 - (sumB (windowSums dg sg w x0 y0) / 64)\<^sup>2"
    by (simp_all add: windowSums_def foldl_addPixel)
qed

lemma windowSSIM_denominator_positive:
  "(let s = windowSums dg sg w x0 y0;
        n = real (windowSize * windowSize);
        meanA = sumA s / n;
        meanB = sumB s / n;
        varA = sumAA s / n - meanA * meanA;
        varB = sumBB s / n - meanB * meanB
    in 0 < (meanA * meanA + meanB * meanB + c1) * (varA + varB + c2))"
proof -
  have c: "0 < c1" "0 < c2" by (simp_all add: c1_def c2_def)
  have v: "0 \<le> sumAA (windowSums dg sg w x0 y0) / 64
               - sumA (windowSums dg sg w x0 y0) / 64 * (sumA (windowSums dg sg w x0 y0) / 64)"
    "0 \<le> sumBB (windowSums dg sg w x0 y0) / 64
               - sumB (windowSums dg sg w x0 y0) / 64 * (sumB (windowSums dg sg w x0 y0) / 64)"
    using window_variance_nonneg[of dg sg w x0 y0] by (simp_all add: power2_eq_square)
  have m: "0 \<le> a * a + b * b" for a b :: real by simp
  show ?thesis
    unfolding Let_def windowSize_def
    by (intro mult_pos_pos add_nonneg_pos add_nonneg_nonneg m) (use c v in simp_all)
qed

text \<open>
  Claim C8. For aligned grayscale images of width \<open>w\<close> and height \<open>h\<close>,
  \<open>computeSSIM\<close> averages the per-window value over the non-overlapping 8 by 8 windows
  stepped by 8, a partial trailing window dropped (the windows whose corner has both
  coordinates divisible by 8 and that fit in the image, each once); it returns 1 when there
  is no complete window (\<open>w < 8\<close> or \<open>h < 8\<close>), and the returned \<open>mssim\<close> is the clamp
  of that mean to [0,1].
\<close>

theorem computeSSIM_windows:
  assumes "w * h \<le> length designGray" "w * h \<le> length screenshotGray"
  shows "mssim (computeSSIM designGray screenshotGray w h elapsed)
           = clamp_unit (mean_window_ssim designGray screenshotGray w h) \<and>
         set (complete_windows w h)
           = {(x0, y0). 8 dvd x0 \<and> 8 dvd y0 \<and> x0 + 8 \<le> w \<and> y0 + 8 \<le> h} \<and>
         distinct (complete_windows w h) \<and>
         (w < 8 \<or> h < 8 \<longrightarrow> mssim (computeSSIM designGray screenshotGray w h elapsed) = 1) \<and>
         0 \<le> mssim (computeSSIM designGray screenshotGray w h elapsed) \<and>
         mssim (computeSSIM designGray screenshotGray w h elapsed) \<le> 1"
proof -
  have m: "mssim (computeSSIM designGray screenshotGray w h elapsed)
           = clamp_unit (mean_window_ssim designGray screenshotGray w h)"
    unfolding computeSSIM_def Let_def ssimRows_windows mean_window_ssim_def
    by (simp add: clamp_unit_eq)
  have z: "complete_windows w h = []" if "w < 8 \<or> h < 8"
    using that length_complete_windows[of w h] by auto
  have one: "mssim (computeSSIM designGray screenshotGray w h elapsed) = 1" if "w < 8 \<or> h < 8"
    using z[OF that] by (simp add: m mean_window_ssim_def clamp_unit_def)
  have r: "0 \<le> clamp_unit v \<and> clamp_unit v \<le> 1" for v
    by (simp add: clamp_unit_def)
  show ?thesis
    using m one r set_complete_windows distinct_complete_windows by simp
qed

theorem computeSSIM_windows_witness:
  "8 * 8 \<le> length (replicate 64 (0::nat)) \<and> 8 * 8 \<le> length (replicate 64 (255::nat)) \<and>
   mssim (computeSSIM (replicate 64 0) (replicate 64 255) 8 8 5) = 1 / 10001 \<and>
   1 * 1 \<le> length [0::nat] \<and> 1 * 1 \<le> length [255::nat] \<and>
   mssim (computeSSIM [0] [255] 1 1 5) = 1"
proof -
  have h: "8 * 8 \<le> length (replicate 64 (0::nat))" "8 * 8 \<le> length (replicate 64 (255::nat))"
    by simp_all
  have g: "1 * 1 \<le> length [0::nat]" "1 * 1 \<le> length [255::nat]"
    by simp_all
  have m: "mean_window_ssim (replicate 64 0) (replicate 64 255) 8 8 = 1 / 10001"
    by (simp add: mean_window_ssim_def complete_windows_def window_origins_def
        windowSSIM_black_white)
  show ?thesis
    using computeSSIM_windows [OF h, of 5] computeSSIM_windows [OF g, of 5]
    by (simp add: m clamp_unit_def)
qed

section \<open>Properties of the comparison pipeline\<close>

lemma mssim_unit:
  "0 \<le> mssim (computeSSIM designGray screenshotGray w h elapsed) \<and>
   mssim (computeSSIM designGray screenshotGray w h elapsed) \<le> 1"
  by (simp add: computeSSIM_def Let_def)

text \<open>
  Claim C9. The composite score of the result of \<open>compareImages\<close> is exactly its
  \<open>ssim.mssim\<close>: it is computed from the SSIM score alone, with no layout and no vision
  signal. The vision score is blended later, by the loop driver, with the weights 0.4 and
  0.6.
\<close>

theorem compareImages_composite_is_mssim:
  assumes "w * h \<le> length designGray" "w * h \<le> length screenshotGray"
  shows "compositeScore (compareImages designGray screenshotGray w h elapsed pixelResult)
           = mssim (ComparisonResult.ssim
                      (compareImages designGray screenshotGray w h elapsed pixelResult)) \<and>
         loopCompositeScore cmp None = clamp_unit (mssim (ComparisonResult.ssim cmp)) \<and>
         loopCompositeScore cmp (Some v)
           = clamp_unit (0.4 * mssim (ComparisonResult.ssim cmp) + 0.6 * v)"
proof -
  let ?m = "mssim (computeSSIM designGray screenshotGray w h elapsed)"
  have "clamp01 ?m = ?m"
    using mssim_unit[of designGray screenshotGray w h elapsed] by (simp add: clamp01_def)
  then have a: "compositeScore (compareImages designGray screenshotGray w h elapsed pixelResult)
           = mssim (ComparisonResult.ssim
                      (compareImages designGray screenshotGray w h elapsed pixelResult))"
    by (simp add: compareImages_def computeCompositeScore_def Let_def)
  have b: "loopCompositeScore cmp None = clamp_unit (mssim (ComparisonResult.ssim cmp))"
    by (simp add: loopCompositeScore_def computeCompositeScore_def clamp01_unit)
  have c: "loopCompositeScore cmp (Some v)
           = clamp_unit (0.4 * mssim (ComparisonResult.ssim cmp) + 0.6 * v)"
    by (simp add: loopCompositeScore_def computeCompositeScore_def clamp01_unit mult.commute)
  show ?thesis using a b c by simp
qed

theorem compareImages_composite_is_mssim_witness:
  "8 * 8 \<le> length (replicate 64 (0::nat)) \<and> 8 * 8 \<le> length (replicate 64 (255::nat)) \<and>
   compositeScore (compareImages (replicate 64 0) (replicate 64 255) 8 8 5
       \<lparr> diffCount = 64, totalPixels = 64, diffPercentage = 1,
         diffImageBuffer = \<lparr> RawImage.width = 0, RawImage.height = 0, rawData = [] \<rparr> \<rparr>)
     = 1 / 10001"
proof -
  have h: "8 * 8 \<le> length (replicate 64 (0::nat))" "8 * 8 \<le> length (replicate 64 (255::nat))"
    by simp_all
  have m: "mssim (computeSSIM (replicate 64 0) (replicate 64 255) 8 8 5) = 1 / 10001"
    by (simp add: computeSSIM_def ssimRows_windows Let_def complete_windows_def
        window_origins_def windowSSIM_black_white)
  show ?thesis
    using compareImages_composite_is_mssim [OF h, of 5
        "\<lparr> diffCount = 64, totalPixels = 64, diffPercentage = 1,
           diffImageBuffer = \<lparr> RawImage.width = 0, RawImage.height = 0, rawData = [] \<rparr> \<rparr>"]
    by (simp add: compareImages_def Let_def m)
qed


section \<open>Properties of the region extractor\<close>

lemma ceil_div32: "nat \<lceil>real n / real gridSize\<rceil> = (n + 31) div 32"
proof -
  define k where "k = (n + 31) div 32"
  have a: "n \<le> 32 * k" and b: "32 * k < n + 32" unfolding k_def by arith+
  have "\<lceil>real n / 32\<rceil> = int k"
  proof (rule ceiling_unique)
    show "real_of_int (int k) - 1 < real n / 32"
    proof -
      have "real (32 * k) < real (n + 32)" using b by (rule of_nat_less_iff[THEN iffD2])
      then show ?thesis by simp
    qed
    show "real n / 32 \<le> real_of_int (int k)"
    proof -
      have "real n \<le> real (32 * k)" using a by (rule of_nat_le_iff[THEN iffD2])
      then show ?thesis by simp
    qed
  qed
  then show ?thesis by (simp add: gridSize_def k_def)
qed

lemma gridCols_eq: "gridCols img = (RawImage.width img + 31) div 32"
  by (simp add: gridCols_def ceil_div32)

lemma gridRows_eq: "gridRows img = (RawImage.height img + 31) div 32"
  by (simp add: gridRows_def ceil_div32)

lemma div32_less: "p < n \<Longrightarrow> p div 32 < (n + 31) div (32::nat)"
  by arith

lemma mult32_less: "g < (n + 31) div 32 \<Longrightarrow> g * 32 < (n::nat)"
  by arith

lemma col_in_grid: "px < RawImage.width img \<Longrightarrow> px div gridSize < gridCols img"
  unfolding gridCols_eq gridSize_def by (rule div32_less)

lemma row_in_grid: "py < RawImage.height img \<Longrightarrow> py div gridSize < gridRows img"
  unfolding gridRows_eq gridSize_def by (rule div32_less)

lemma grid_col_in_image: "gx < gridCols img \<Longrightarrow> gx * gridSize < RawImage.width img"
  unfolding gridCols_eq gridSize_def by (rule mult32_less)

lemma grid_row_in_image: "gy < gridRows img \<Longrightarrow> gy * gridSize < RawImage.height img"
  unfolding gridRows_eq gridSize_def by (rule mult32_less)

lemma index_in_grid:
  assumes "gx < cols" "gy < rows"
  shows "gy * cols + gx < cols * (rows::nat)"
proof -
  have "gy * cols + gx < gy * cols + cols" using assms(1) by simp
  also have "\<dots> = Suc gy * cols" by simp
  also have "\<dots> \<le> rows * cols" using assms(2) by (intro mult_le_mono1) simp
  finally show ?thesis by (simp add: mult.commute)
qed

lemma cellOf_in_grid:
  "px < RawImage.width img \<Longrightarrow> py < RawImage.height img \<Longrightarrow>
   cellOf img px py < gridCols img * gridRows img"
  unfolding cellOf_def by (intro index_in_grid col_in_grid row_in_grid)

lemma cellOf_mod:
  "px < RawImage.width img \<Longrightarrow> cellOf img px py mod gridCols img = px div gridSize"
  unfolding cellOf_def using col_in_grid[of px img] by simp

lemma cellOf_div:
  "px < RawImage.width img \<Longrightarrow> cellOf img px py div gridCols img = py div gridSize"
  unfolding cellOf_def using col_in_grid[of px img] by simp

lemma length_countPixel: "length (countPixel img g p) = length g"
  by (simp add: countPixel_def)

lemma length_foldl_countPixel: "length (foldl (countPixel img) g ps) = length g"
  by (induction ps arbitrary: g) (simp_all add: length_countPixel)

lemma countPixel_nth:
  assumes "c < length g" "cellOf img (snd p) (fst p) < length g"
  shows "countPixel img g p ! c = g ! c + (if hot img c p then 1 else 0)"
  using assms by (auto simp: countPixel_def hot_def nth_list_update)

lemma foldl_countPixel_nth:
  assumes "c < length g" "\<forall>p \<in> set ps. cellOf img (snd p) (fst p) < length g"
  shows "foldl (countPixel img) g ps ! c = g ! c + length (filter (hot img c) ps)"
  using assms
proof (induction ps arbitrary: g)
  case Nil
  then show ?case by simp
next
  case (Cons p ps)
  have "foldl (countPixel img) (countPixel img g p) ps ! c
      = countPixel img g p ! c + length (filter (hot img c) ps)"
    using Cons.prems by (intro Cons.IH) (simp_all add: length_countPixel)
  then show ?case using Cons.prems by (simp add: countPixel_nth)
qed

lemma length_buildGrid: "length (buildGrid img) = gridCols img * gridRows img"
  by (simp add: buildGrid_def length_foldl_countPixel)

lemma buildGrid_nth:
  assumes "c < gridCols img * gridRows img"
  shows "buildGrid img ! c = length (filter (hot img c) (pixels img))"
proof -
  have "\<forall>p \<in> set (pixels img). cellOf img (snd p) (fst p)
          < length (replicate (gridCols img * gridRows img) (0::nat))"
    by (auto simp: pixels_def cellOf_in_grid)
  then show ?thesis
    unfolding buildGrid_def pixels_def[symmetric]
    using assms by (subst foldl_countPixel_nth) simp_all
qed

lemma distinct_pixels: "distinct (pixels img)"
  by (simp add: pixels_def distinct_product)

lemma cell_count_le:
  assumes "c < gridCols img * gridRows img"
  shows "buildGrid img ! c \<le> gridSize * gridSize"
proof -
  let ?gx = "c mod gridCols img" and ?gy = "c div gridCols img"
  let ?box = "{?gx * gridSize ..< ?gx * gridSize + gridSize} \<times> {?gy * gridSize ..< ?gy * gridSize + gridSize}"
  have sub: "(\<lambda>p. (snd p, fst p)) ` set (filter (hot img c) (pixels img)) \<subseteq> ?box"
  proof
    fix q assume "q \<in> (\<lambda>p. (snd p, fst p)) ` set (filter (hot img c) (pixels img))"
    then obtain py px where q: "q = (px, py)" and p: "(py, px) \<in> set (pixels img)"
      and h: "hot img c (py, px)" by auto
    from p have "px < RawImage.width img" by (simp add: pixels_def)
    with h have "px div gridSize = ?gx" "py div gridSize = ?gy"
      using cellOf_mod[of px img py] cellOf_div[of px img py] by (auto simp: hot_def)
    then have "?gx * gridSize \<le> px \<and> px < ?gx * gridSize + gridSize \<and>
               ?gy * gridSize \<le> py \<and> py < ?gy * gridSize + gridSize"
      unfolding gridSize_def by arith
    then show "q \<in> ?box" using q by simp
  qed
  have "length (filter (hot img c) (pixels img)) = card (set (filter (hot img c) (pixels img)))"
    by (rule distinct_card[symmetric]) (simp add: distinct_pixels)
  also have "\<dots> = card ((\<lambda>p. (snd p, fst p)) ` set (filter (hot img c) (pixels img)))"
    by (rule card_image[symmetric]) (auto simp: inj_on_def prod_eq_iff)
  also have "\<dots> \<le> card ?box" by (rule card_mono[OF _ sub]) simp
  also have "\<dots> = gridSize * gridSize" by (simp add: card_cartesian_product)
  finally show ?thesis using assms by (simp add: buildGrid_nth)
qed

lemma visitNeighbour_pending:
  assumes "pending_ok cols rows D vq"
  shows "pending_ok cols rows D (visitNeighbour grid cols rows cx cy vq d)"
proof -
  let ?nx = "int cx + fst d" and ?ny = "int cy + snd d"
  let ?ni = "nat (?ny * int cols + ?nx)"
  show ?thesis
  proof (cases "?nx \<ge> 0 \<and> ?nx < int cols \<and> ?ny \<ge> 0 \<and> ?ny < int rows
                \<and> ?ni < length grid \<and> grid ! ?ni > 0 \<and> ?ni \<notin> fst vq")
    case True
    then have "nat ?nx < cols" "nat ?ny < rows" by linarith+
    then have "nat ?ny * cols + nat ?nx < cols * rows" by (rule index_in_grid)
    moreover have "?ni = nat ?ny * cols + nat ?nx"
      using True by (simp add: nat_add_distrib nat_mult_distrib)
    ultimately have lt: "?ni < cols * rows" by simp
    have v: "visitNeighbour grid cols rows cx cy vq d = (insert ?ni (fst vq), snd vq @ [?ni])"
      using True by (simp add: visitNeighbour_def Let_def)
    have "?ni \<notin> set (snd vq)" "?ni \<notin> D" using True assms by (auto simp: pending_ok_def)
    then show ?thesis using assms lt unfolding v pending_ok_def by auto
  next
    case False
    then have "visitNeighbour grid cols rows cx cy vq d = vq"
      by (auto simp: visitNeighbour_def Let_def)
    then show ?thesis using assms by simp
  qed
qed

lemma visitNeighbours_pending:
  "pending_ok cols rows D vq \<Longrightarrow>
   pending_ok cols rows D (foldl (visitNeighbour grid cols rows cx cy) vq ds)"
  by (induction ds arbitrary: vq) (simp_all add: visitNeighbour_pending)

lemma floodStep_inv:
  assumes "fill_inv grid cols rows D s" "queue s \<noteq> []"
  shows "fill_inv grid cols rows (insert (hd (queue s)) D) (floodStep grid cols rows s)"
proof -
  obtain cell rest where q: "queue s = cell # rest" using assms(2) by (cases "queue s") auto
  let ?D = "insert cell D"
  let ?vq = "foldl (visitNeighbour grid cols rows (cell mod cols) (cell div cols))
               (visited s, rest) directions"
  have fin: "finite D" and cellD: "cell \<notin> D" and celln: "cell < cols * rows"
    using assms(1) q by (auto simp: fill_inv_def)
  have "pending_ok cols rows ?D (visited s, rest)"
    using assms(1) q by (auto simp: fill_inv_def pending_ok_def)
  then have p: "pending_ok cols rows ?D ?vq" by (rule visitNeighbours_pending)
  have t: "total s + grid ! cell = (\<Sum>c\<in>?D. grid ! c)"
    using assms(1) fin cellD by (simp add: fill_inv_def)
  have b: "\<forall>c\<in>?D. min (minX s) (cell mod cols) \<le> c mod cols \<and>
                 c mod cols \<le> max (maxX s) (cell mod cols) \<and>
                 min (minY s) (cell div cols) \<le> c div cols \<and>
                 c div cols \<le> max (maxY s) (cell div cols)"
    using assms(1) by (auto simp: fill_inv_def)
  have st: "floodStep grid cols rows s =
      \<lparr> queue = snd ?vq, visited = fst ?vq,
        minX = min (minX s) (cell mod cols), maxX = max (maxX s) (cell mod cols),
        minY = min (minY s) (cell div cols), maxY = max (maxY s) (cell div cols),
        total = total s + grid ! cell \<rparr>"
    by (simp add: floodStep_def Let_def q)
  have "fill_inv grid cols rows ?D (floodStep grid cols rows s)"
    unfolding st fill_inv_def
    using p fin celln t b assms(1) by (simp add: pending_ok_def fill_inv_def)
  then show ?thesis by (simp add: q)
qed

lemma floodFill_inv:
  assumes "fill_inv grid cols rows D s"
  shows "\<exists>D'. D \<union> set (queue s) \<subseteq> D' \<and>
              fill_inv grid cols rows D' (floodFill grid cols rows s) \<and>
              queue (floodFill grid cols rows s) = []"
  using assms
proof (induction grid cols rows s arbitrary: D rule: floodFill.induct)
  case (1 grid cols rows s)
  show ?case
  proof (cases "length (queue s) > 0")
    case True
    then have ne: "queue s \<noteq> []" by simp
    have f: "floodFill grid cols rows s = floodFill grid cols rows (floodStep grid cols rows s)"
      using True by (subst floodFill.simps) simp
    let ?D = "insert (hd (queue s)) D"
    have inv: "fill_inv grid cols rows ?D (floodStep grid cols rows s)"
      using "1.prems" ne by (rule floodStep_inv)
    from "1.IH"[OF True inv] obtain D' where
      D': "?D \<union> set (queue (floodStep grid cols rows s)) \<subseteq> D'"
        "fill_inv grid cols rows D' (floodFill grid cols rows (floodStep grid cols rows s))"
        "queue (floodFill grid cols rows (floodStep grid cols rows s)) = []"
      by blast
    have tl_sub: "set (tl (queue s)) \<subseteq> set (queue (floodStep grid cols rows s)) \<union> D'"
    proof -
      have "set (snd vq) \<subseteq> set (snd (foldl (visitNeighbour grid cols rows cx cy) vq ds))"
        for vq cx cy ds
      proof (induction ds arbitrary: vq)
        case Nil
        then show ?case by simp
      next
        case (Cons d ds)
        have "set (snd vq) \<subseteq> set (snd (visitNeighbour grid cols rows cx cy vq d))"
          by (auto simp: visitNeighbour_def Let_def)
        then show ?case using Cons.IH[of "visitNeighbour grid cols rows cx cy vq d"] by auto
      qed
      from this[of "(visited s, tl (queue s))"] show ?thesis
        by (auto simp: floodStep_def Let_def)
    qed
    have "set (queue s) \<subseteq> insert (hd (queue s)) (set (tl (queue s)))"
      using ne by (cases "queue s") auto
    then have "D \<union> set (queue s) \<subseteq> D'" using D'(1) tl_sub by auto
    then show ?thesis using D'(2,3) f by auto
  next
    case False
    then have "floodFill grid cols rows s = s" by (subst floodFill.simps) simp
    then show ?thesis using "1.prems" False by auto
  qed
qed

lemma cell_pixels_image:
  "cell_pixels img c = (\<lambda>p. (snd p, fst p)) ` set (filter (hot img c) (pixels img))"
proof (rule set_eqI)
  fix q :: "nat \<times> nat"
  obtain px py where q: "q = (px, py)" by (cases q)
  have "q \<in> (\<lambda>p. (snd p, fst p)) ` set (filter (hot img c) (pixels img))
        \<longleftrightarrow> (py, px) \<in> set (filter (hot img c) (pixels img))"
    unfolding q by force
  also have "\<dots> \<longleftrightarrow> q \<in> cell_pixels img c"
    unfolding q by (auto simp: cell_pixels_def hot_def pixels_def)
  finally show "q \<in> cell_pixels img c
        \<longleftrightarrow> q \<in> (\<lambda>p. (snd p, fst p)) ` set (filter (hot img c) (pixels img))"
    by simp
qed

lemma finite_cell_pixels: "finite (cell_pixels img c)"
  unfolding cell_pixels_image by simp

lemma card_cell_pixels:
  assumes "c < gridCols img * gridRows img"
  shows "card (cell_pixels img c) = buildGrid img ! c"
proof -
  have "card (cell_pixels img c) = card (set (filter (hot img c) (pixels img)))"
    unfolding cell_pixels_image by (rule card_image) (auto simp: inj_on_def prod_eq_iff)
  also have "\<dots> = length (filter (hot img c) (pixels img))"
    by (rule distinct_card) (simp add: distinct_pixels)
  finally show ?thesis using assms by (simp add: buildGrid_nth)
qed

lemma card_cells_pixels:
  assumes "finite D" "D \<subseteq> {..<gridCols img * gridRows img}"
  shows "card (\<Union>c\<in>D. cell_pixels img c) = (\<Sum>c\<in>D. buildGrid img ! c)"
proof -
  have "card (\<Union>c\<in>D. cell_pixels img c) = (\<Sum>c\<in>D. card (cell_pixels img c))"
  proof (rule card_UN_disjoint)
    show "finite D" by (rule assms(1))
    show "\<forall>c\<in>D. finite (cell_pixels img c)" by (simp add: finite_cell_pixels)
    show "\<forall>c\<in>D. \<forall>d\<in>D. c \<noteq> d \<longrightarrow> cell_pixels img c \<inter> cell_pixels img d = {}"
      by (auto simp: cell_pixels_def)
  qed
  also have "\<dots> = (\<Sum>c\<in>D. buildGrid img ! c)"
    by (rule sum.cong) (use assms(2) in \<open>auto simp: card_cell_pixels\<close>)
  finally show ?thesis .
qed

lemma box_bound:
  assumes "g0 \<le> p div 32" "p div 32 \<le> g1" "p < n"
  shows "real (g0 * 32) \<le> real p \<and>
         real p < real (g0 * 32)
                  + real_of_int (min ((int g1 - int g0 + 1) * 32) (int n - int (g0 * 32)))"
proof -
  have a: "g0 * 32 \<le> p" using assms(1) by arith
  have "p < (g1 + 1) * 32" using assms(2) by arith
  then have "int p < int (g0 * 32) + (int g1 - int g0 + 1) * 32" by simp
  moreover have "int p < int (g0 * 32) + (int n - int (g0 * 32))" using assms(3) by simp
  ultimately have "int p < int (g0 * 32) + min ((int g1 - int g0 + 1) * 32) (int n - int (g0 * 32))"
    by (simp add: min_def)
  then have "real_of_int (int p)
      < real_of_int (int (g0 * 32) + min ((int g1 - int g0 + 1) * 32) (int n - int (g0 * 32)))"
    by (simp only: of_int_less_iff)
  moreover have "real (g0 * 32) \<le> real p" using a by (simp only: of_nat_le_iff)
  ultimately show ?thesis by simp
qed

lemma box_positive:
  assumes "g0 \<le> g1" "g0 * 32 < n"
  shows "0 < real_of_int (min ((int g1 - int g0 + 1) * 32) (int n - int (g0 * 32)))"
proof -
  have "0 < (int g1 - int g0 + 1) * 32" using assms(1) by simp
  moreover have "0 < int n - int (g0 * 32)" using assms(2) by simp
  ultimately have "0 < min ((int g1 - int g0 + 1) * 32) (int n - int (g0 * 32))"
    by (simp add: min_def)
  then show ?thesis by (simp only: of_int_0_less_iff)
qed

lemma card_cells_in_box:
  assumes "finite D"
    "\<forall>c\<in>D. g0 \<le> c mod cols \<and> c mod cols \<le> g1 \<and> h0 \<le> c div cols \<and> c div cols \<le> h1"
  shows "card D \<le> (Suc g1 - g0) * (Suc h1 - h0)"
proof -
  have inj: "inj_on (\<lambda>c. (c mod cols, c div cols)) D"
  proof (rule inj_onI)
    fix a b assume "(a mod cols, a div cols) = (b mod cols, b div cols)"
    then have "a div cols * cols + a mod cols = b div cols * cols + b mod cols" by simp
    then show "a = b" by simp
  qed
  have "card D \<le> card ({g0..g1} \<times> {h0..h1})"
    by (rule card_inj_on_le[OF inj]) (use assms(2) in auto)
  then show ?thesis by (simp add: card_cartesian_product)
qed

lemma finite_above_threshold_in: "finite (above_threshold_in img r)"
proof -
  have "above_threshold_in img r \<subseteq> {..<RawImage.width img} \<times> {..<RawImage.height img}"
    by (auto simp: above_threshold_in_def)
  then show ?thesis by (rule finite_subset) simp
qed

lemma regionOf_ok:
  assumes inv: "fill_inv (buildGrid img) (gridCols img) (gridRows img) D f" and iD: "i \<in> D"
  shows "region_ok img (regionOf img f)"
proof -
  let ?cols = "gridCols img" and ?rows = "gridRows img" and ?grid = "buildGrid img"
  let ?r = "regionOf img f"
  have fin: "finite D" and sub: "D \<subseteq> {..<?cols * ?rows}"
    and tot: "total f = (\<Sum>c\<in>D. ?grid ! c)"
    and bnd: "\<forall>c\<in>D. minX f \<le> c mod ?cols \<and> c mod ?cols \<le> maxX f \<and>
                    minY f \<le> c div ?cols \<and> c div ?cols \<le> maxY f"
    using inv by (simp_all add: fill_inv_def)
  have i: "i < ?cols * ?rows" using sub iD by auto
  then have cpos: "0 < ?cols" by (cases "?cols") auto
  have ix: "i mod ?cols < ?cols" using cpos by simp
  have iy: "i div ?cols < ?rows" using i by (simp add: less_mult_imp_div_less mult.commute)
  have x01: "minX f \<le> maxX f" and y01: "minY f \<le> maxY f"
    and x0: "minX f < ?cols" and y0: "minY f < ?rows"
    using bnd iD ix iy by (force+)
  have xw: "minX f * 32 < RawImage.width img" and yh: "minY f * 32 < RawImage.height img"
    using grid_col_in_image[OF x0] grid_row_in_image[OF y0] by (simp_all add: gridSize_def)
  have w: "DiffRegion.width ?r > 0"
    using box_positive[OF x01 xw] by (simp add: regionOf_def Let_def gridSize_def)
  have h: "DiffRegion.height ?r > 0"
    using box_positive[OF y01 yh] by (simp add: regionOf_def Let_def gridSize_def)
  \<comment> \<open>the intensity\<close>
  let ?area = "(int (maxX f) - int (minX f) + 1) * 32 * ((int (maxY f) - int (minY f) + 1) * 32)"
  have apos: "0 < ?area" using x01 y01 by (simp add: zero_less_mult_iff)
  have "total f \<le> card D * (gridSize * gridSize)"
  proof -
    have "(\<Sum>c\<in>D. ?grid ! c) \<le> (\<Sum>c\<in>D. gridSize * gridSize)"
      by (rule sum_mono) (use sub cell_count_le in auto)
    then show ?thesis by (simp add: tot)
  qed
  also have "\<dots> \<le> (Suc (maxX f) - minX f) * (Suc (maxY f) - minY f) * (gridSize * gridSize)"
    by (intro mult_le_mono1 card_cells_in_box[OF fin bnd])
  finally have "int (total f)
      \<le> int ((Suc (maxX f) - minX f) * (Suc (maxY f) - minY f) * (gridSize * gridSize))"
    by (simp only: of_nat_le_iff)
  also have "\<dots> = ?area"
  proof -
    define a b where "a = Suc (maxX f) - minX f" and "b = Suc (maxY f) - minY f"
    have a: "int a = int (maxX f) - int (minX f) + 1" using x01 by (simp add: a_def)
    have b: "int b = int (maxY f) - int (minY f) + 1" using y01 by (simp add: b_def)
    have "int (a * b * (gridSize * gridSize)) = int a * 32 * (int b * 32)"
      by (simp add: gridSize_def)
    then have "int (a * b * (gridSize * gridSize))
        = (int (maxX f) - int (minX f) + 1) * 32 * ((int (maxY f) - int (minY f) + 1) * 32)"
      by (simp only: a b)
    then show ?thesis by (simp only: a_def b_def)
  qed
  finally have ta: "int (total f) \<le> ?area" .
  define area where "area = ?area"
  have rapos: "0 < real_of_int area"
    using apos unfolding area_def by (simp only: of_int_0_less_iff)
  have "real_of_int (int (total f)) \<le> real_of_int area"
    using ta unfolding area_def by (simp only: of_int_le_iff)
  then have ta': "real (total f) \<le> real_of_int area" by simp
  have d: "diffIntensity ?r = real (total f) / real_of_int area"
    using apos unfolding area_def by (simp add: regionOf_def Let_def gridSize_def)
  have d0: "0 \<le> diffIntensity ?r"
    unfolding d by (rule divide_nonneg_pos[OF _ rapos]) simp
  have d1: "diffIntensity ?r \<le> 1"
    unfolding d using ta' rapos by (simp add: divide_le_eq)
  \<comment> \<open>the pixels counted\<close>
  let ?P = "\<Union>c\<in>D. cell_pixels img c"
  have pc: "pixelCount ?r = real (card ?P)"
    by (simp add: regionOf_def Let_def card_cells_pixels[OF fin sub] tot)
  have Psub: "?P \<subseteq> above_threshold_in img ?r"
  proof
    fix p assume "p \<in> ?P"
    then obtain c where c: "c \<in> D" and p: "p \<in> cell_pixels img c" by auto
    obtain px py where pp: "p = (px, py)" by (cases p)
    from p pp have px: "px < RawImage.width img" and py: "py < RawImage.height img"
      and hot: "redAbove img px py" and cell: "cellOf img px py = c"
      by (simp_all add: cell_pixels_def)
    have cx: "c mod ?cols = px div 32" and cy: "c div ?cols = py div 32"
      using cellOf_mod[OF px, of py] cellOf_div[OF px, of py] cell by (simp_all add: gridSize_def)
    have bx: "minX f \<le> px div 32" "px div 32 \<le> maxX f"
      and by': "minY f \<le> py div 32" "py div 32 \<le> maxY f"
      using bnd c cx cy by auto
    show "p \<in> above_threshold_in img ?r"
      using box_bound[OF bx px] box_bound[OF by' py] px py hot
      by (simp add: above_threshold_in_def pp regionOf_def Let_def gridSize_def)
  qed
  have "card ?P \<le> card (above_threshold_in img ?r)"
    by (rule card_mono[OF finite_above_threshold_in Psub])
  then have le: "pixelCount ?r \<le> real (card (above_threshold_in img ?r))"
    unfolding pc by (simp only: of_nat_le_iff)
  show ?thesis
    unfolding region_ok_def using w h d0 d1 le pc Psub by blast
qed

lemma scanCell_ok:
  assumes i: "i < length (buildGrid img)"
    and st: "\<forall>r\<in>set (snd st). region_ok img r \<and> m \<le> pixelCount r"
  shows "\<forall>r\<in>set (snd (scanCell img (buildGrid img) m st i)).
           region_ok img r \<and> m \<le> pixelCount r"
proof (cases "buildGrid img ! i = 0 \<or> i \<in> fst st")
  case True
  then show ?thesis using st by (simp add: scanCell_def)
next
  case False
  let ?s0 = "\<lparr> queue = [i], visited = insert i (fst st),
               minX = gridCols img, maxX = 0, minY = gridRows img, maxY = 0, total = 0 \<rparr>"
  let ?f = "floodFill (buildGrid img) (gridCols img) (gridRows img) ?s0"
  have "fill_inv (buildGrid img) (gridCols img) (gridRows img) {} ?s0"
    using i by (simp add: fill_inv_def length_buildGrid)
  from floodFill_inv[OF this] obtain D where
    D': "{} \<union> set (queue ?s0) \<subseteq> D \<and>
         fill_inv (buildGrid img) (gridCols img) (gridRows img) D ?f \<and> queue ?f = []" ..
  have "i \<in> set (queue ?s0)" by simp
  with D' have D: "i \<in> D" "fill_inv (buildGrid img) (gridCols img) (gridRows img) D ?f"
    by blast+
  have ok: "region_ok img (regionOf img ?f)" using D(2,1) by (rule regionOf_ok)
  have pc: "pixelCount (regionOf img ?f) = real (total ?f)"
    by (simp add: regionOf_def Let_def)
  show ?thesis
  proof (cases "real (total ?f) < m")
    case True
    have "snd (scanCell img (buildGrid img) m st i) = snd st"
      using False True by (simp add: scanCell_def Let_def)
    then show ?thesis using st by simp
  next
    case nlt: False
    have "snd (scanCell img (buildGrid img) m st i) = snd st @ [regionOf img ?f]"
      using False nlt by (simp add: scanCell_def Let_def)
    then show ?thesis using st ok pc nlt by simp
  qed
qed

lemma scan_ok:
  assumes "\<forall>i\<in>set cells. i < length (buildGrid img)"
    and "\<forall>r\<in>set (snd st). region_ok img r \<and> m \<le> pixelCount r"
  shows "\<forall>r\<in>set (snd (foldl (scanCell img (buildGrid img) m) st cells)).
           region_ok img r \<and> m \<le> pixelCount r"
  using assms
proof (induction cells arbitrary: st)
  case Nil
  then show ?case by simp
next
  case (Cons i cells)
  have step: "\<forall>r\<in>set (snd (scanCell img (buildGrid img) m st i)).
                region_ok img r \<and> m \<le> pixelCount r"
    using Cons.prems by (intro scanCell_ok) simp_all
  have rest: "\<forall>i\<in>set cells. i < length (buildGrid img)"
    using Cons.prems(1) by simp
  show ?case
    unfolding foldl_Cons using rest step by (rule Cons.IH)
qed

lemma findDiffRegions_ok:
  "\<forall>r\<in>set (findDiffRegions img m). region_ok img r \<and> m \<le> pixelCount r"
proof -
  have "\<forall>r\<in>set (snd (foldl (scanCell img (buildGrid img) m) ({}, [])
                        [0..<length (buildGrid img)])).
          region_ok img r \<and> m \<le> pixelCount r"
    by (rule scan_ok) simp_all
  then show ?thesis by (simp add: findDiffRegions_def Let_def)
qed

lemma findDiffRegions_sorted:
  "sorted_wrt (\<lambda>a b. diffIntensity a \<ge> diffIntensity b) (findDiffRegions img m)"
proof -
  have "sorted (map (\<lambda>r. - diffIntensity r) (findDiffRegions img m))"
    unfolding findDiffRegions_def Let_def by (rule sorted_sort_key)
  then show ?thesis by (simp add: sorted_map)
qed

text \<open>
  Claim C5. For every diff image and every \<open>minRegionSize\<close>, the list returned by
  \<open>findDiffRegions\<close> is sorted by descending \<open>diffIntensity\<close>, and every region in it
  has \<open>pixelCount \<ge> minRegionSize\<close>, a positive width and height, and a
  \<open>diffIntensity\<close> in [0,1]. Its \<open>pixelCount\<close> is the number of pixels of a set of pixels
  that exceed the brightness threshold and lie in the box of the region, so it counts such
  pixels only and is at most their number in the box.
\<close>

theorem findDiffRegions_invariants:
  "sorted_wrt (\<lambda>a b. diffIntensity a \<ge> diffIntensity b) (findDiffRegions img m) \<and>
   (\<forall>r\<in>set (findDiffRegions img m).
      pixelCount r \<ge> m \<and> DiffRegion.width r > 0 \<and> DiffRegion.height r > 0 \<and>
      0 \<le> diffIntensity r \<and> diffIntensity r \<le> 1 \<and>
      pixelCount r \<le> real (card (above_threshold_in img r)) \<and>
      (\<exists>P. P \<subseteq> above_threshold_in img r \<and> pixelCount r = real (card P)))"
  using findDiffRegions_sorted[of img m] findDiffRegions_ok[of img m]
  unfolding region_ok_def by blast

lemma grid_twoPixels: "gridCols twoPixels = Suc 0" "gridRows twoPixels = Suc 0"
  by (simp_all add: gridCols_eq gridRows_eq twoPixels_def)

lemma hot_twoPixels: "redAbove twoPixels 0 0" "redAbove twoPixels (Suc 0) 0"
  by (simp_all add: redAbove_def twoPixels_def)

lemma cell_twoPixels: "cellOf twoPixels 0 0 = 0" "cellOf twoPixels (Suc 0) 0 = 0"
  by (simp_all add: cellOf_def grid_twoPixels gridSize_def)

lemma pixels_twoPixels:
  "List.product [0..<RawImage.height twoPixels] [0..<RawImage.width twoPixels]
     = [(0, 0), (0, Suc 0)]"
proof -
  have "[0..<RawImage.height twoPixels] = [0]" "[0..<RawImage.width twoPixels] = [0, Suc 0]"
    by (simp_all add: twoPixels_def upt_rec)
  then show ?thesis by simp
qed

lemma buildGrid_twoPixels: "buildGrid twoPixels = [2]"
  unfolding buildGrid_def pixels_twoPixels grid_twoPixels
  by (simp add: countPixel_def hot_twoPixels cell_twoPixels)

lemma floodStep_twoPixels: "floodStep [2] (Suc 0) (Suc 0) twoPixelsStart = twoPixelsFilled"
  by (simp add: floodStep_def visitNeighbour_def directions_def Let_def
      twoPixelsStart_def twoPixelsFilled_def)

lemma floodFill_twoPixels: "floodFill [2] (Suc 0) (Suc 0) twoPixelsStart = twoPixelsFilled"
proof -
  have "floodFill [2] (Suc 0) (Suc 0) twoPixelsStart
      = floodFill [2] (Suc 0) (Suc 0) (floodStep [2] (Suc 0) (Suc 0) twoPixelsStart)"
    by (subst floodFill.simps) (simp add: twoPixelsStart_def)
  also have "\<dots> = floodFill [2] (Suc 0) (Suc 0) twoPixelsFilled"
    by (simp only: floodStep_twoPixels)
  also have "\<dots> = twoPixelsFilled"
    by (subst floodFill.simps) (simp add: twoPixelsFilled_def)
  finally show ?thesis .
qed

lemma regionOf_twoPixels: "regionOf twoPixels twoPixelsFilled = twoPixelsRegion"
  by (simp add: regionOf_def Let_def gridSize_def twoPixels_def twoPixelsFilled_def
      twoPixelsRegion_def)

lemma scanCell_twoPixels: "scanCell twoPixels [2] 2 ({}, []) 0 = ({0}, [twoPixelsRegion])"
proof -
  have s: "\<lparr> queue = [0], visited = insert 0 (fst ({}, [])), minX = Suc 0, maxX = 0,
            minY = Suc 0, maxY = 0, total = 0 \<rparr> = twoPixelsStart"
    by (simp add: twoPixelsStart_def)
  show ?thesis
    unfolding scanCell_def grid_twoPixels s floodFill_twoPixels regionOf_twoPixels Let_def
    by (simp add: twoPixelsFilled_def)
qed

lemma findDiffRegions_twoPixels: "findDiffRegions twoPixels 2 = [twoPixelsRegion]"
proof -
  have "[0..<length [2::nat]] = [0]" by simp
  then show ?thesis
    unfolding findDiffRegions_def buildGrid_twoPixels Let_def
    by (simp add: scanCell_twoPixels)
qed

theorem findDiffRegions_invariants_witness:
  "twoPixelsRegion \<in> set (findDiffRegions twoPixels 2) \<and>
   pixelCount twoPixelsRegion \<ge> 2 \<and>
   DiffRegion.width twoPixelsRegion > 0 \<and> DiffRegion.height twoPixelsRegion > 0 \<and>
   0 \<le> diffIntensity twoPixelsRegion \<and> diffIntensity twoPixelsRegion \<le> 1 \<and>
   pixelCount twoPixelsRegion \<le> real (card (above_threshold_in twoPixels twoPixelsRegion))"
  using findDiffRegions_invariants [of twoPixels 2]
  by (simp add: findDiffRegions_twoPixels)


end
